theory Spec2Isabelle
  imports Main "HOL-Library.AList"
begin

section \<open>JavaScript containers\<close>

text \<open>
  A JavaScript \<open>Map\<close> iterates in insertion order and \<open>set\<close> on a key that is already
  present keeps the key's position. It is modelled as an association list:
  \<open>js_map_get\<close> is \<open>Map.get\<close> (\<open>None\<close> for \<open>undefined\<close>), \<open>js_map_set\<close> is \<open>Map.set\<close>.
  A plain object used as a record (\<open>Record<string, V>\<close>) is modelled by the list of its own
  enumerable properties, in the order in which \<open>Object.entries\<close> enumerates them.
\<close>

type_synonym ('k, 'v) js_map = "('k \<times> 'v) list"

definition js_map_get :: "('k, 'v) js_map \<Rightarrow> 'k \<Rightarrow> 'v option" where
  "js_map_get m k = map_of m k"

definition js_map_set :: "('k, 'v) js_map \<Rightarrow> 'k \<Rightarrow> 'v \<Rightarrow> ('k, 'v) js_map" where
  "js_map_set m k v = AList.update k v m"

definition js_map_keys :: "('k, 'v) js_map \<Rightarrow> 'k list" where
  "js_map_keys m = map fst m"

text \<open>
  The assignment \<open>obj[key] = value\<close> on an object made by the literal \<open>{}\<close>. For every key
  but one it creates or overwrites an own property, as \<open>Map.set\<close> does. For the key
  \<open>__proto__\<close> it calls the setter inherited from \<open>Object.prototype\<close>, which changes the
  prototype of the object or does nothing, and in either case creates no own property: the
  list of own properties is unchanged.
\<close>

definition js_object_assign :: "(string, 'v) js_map \<Rightarrow> string \<Rightarrow> 'v \<Rightarrow> (string, 'v) js_map" where
  "js_object_assign obj k v = (if k = ''__proto__'' then obj else js_map_set obj k v)"

text \<open>lodash \<open>uniq\<close>: walk the array and keep an element when it is not in the result yet.\<close>

fun uniq_into :: "'a list \<Rightarrow> 'a list \<Rightarrow> 'a list" where
  "uniq_into acc [] = acc"
| "uniq_into acc (x # xs) = uniq_into (if x \<in> set acc then acc else acc @ [x]) xs"

definition uniq :: "'a list \<Rightarrow> 'a list" where
  "uniq xs = uniq_into [] xs"

section \<open>Topic mapping engine (mapping.ts)\<close>

record Topic =
  name :: string
  schemaName :: "string option"
  convertibleTo :: "string list option"
  mappedFromName :: "string option"

text \<open>A message event: the topic and the remaining fields, which no transform reads.\<close>

record 'p MessageEvent =
  topic :: string
  payload :: 'p

record 'p SubscribePayload =
  sub_topic :: string
  sub_rest :: 'p

text \<open>
  \<open>TopicMapping = Map<string, string[]>\<close>. The transforms compare the mapping with the
  module constant \<open>EmptyMapping\<close> by reference (\<open>mapping === EmptyMapping\<close>), so the
  sentinel is a constructor of its own: a freshly built \<open>Map\<close> is never the sentinel, even
  when it has no entries.
\<close>

datatype TopicMapping = EmptyMapping | Mapping "(string, string list) js_map"

type_synonym ('v) TopicMapper = "Topic list \<Rightarrow> 'v \<Rightarrow> (string, string) js_map"

record 'v MappingInputs =
  mappers :: "'v TopicMapper list"
  topics :: "Topic list option"
  variables :: 'v

record 'p MessageBlock =
  messagesByTopic :: "(string, 'p MessageEvent list) js_map"
  sizeInBytes :: nat

definition lookup_mapping :: "TopicMapping \<Rightarrow> string \<Rightarrow> string list option" where
  "lookup_mapping mapping k = (case mapping of EmptyMapping \<Rightarrow> None | Mapping m \<Rightarrow> js_map_get m k)"

definition mapMessages :: "'p MessageEvent list \<Rightarrow> TopicMapping \<Rightarrow> 'p MessageEvent list" where
  "mapMessages messages mapping =
     (case mapping of
        EmptyMapping \<Rightarrow> messages
      | Mapping m \<Rightarrow>
          concat (map (\<lambda>msg. case js_map_get m (topic msg) of
                                Some mappings \<Rightarrow> map (\<lambda>t. msg\<lparr>topic := t\<rparr>) mappings
                              | None \<Rightarrow> [msg]) messages))"

definition mapBlock_step ::
  "(string, string list) js_map \<Rightarrow> (string, 'p MessageEvent list) js_map
     \<Rightarrow> string \<times> 'p MessageEvent list \<Rightarrow> (string, 'p MessageEvent list) js_map" where
  "mapBlock_step m acc e =
     (case js_map_get m (fst e) of
        Some mappings \<Rightarrow>
          foldl (\<lambda>a mappedTopic. js_object_assign a mappedTopic
                   (map (\<lambda>msg. msg\<lparr>topic := mappedTopic\<rparr>) (snd e))) acc mappings
      | None \<Rightarrow> js_object_assign acc (fst e) (snd e))"

definition mapBlocks ::
  "'p MessageBlock option list \<Rightarrow> TopicMapping \<Rightarrow> 'p MessageBlock option list" where
  "mapBlocks blocks mapping =
     (case mapping of
        EmptyMapping \<Rightarrow> blocks
      | Mapping m \<Rightarrow>
          map (\<lambda>block. case block of
                  Some b \<Rightarrow> Some (b\<lparr>messagesByTopic := foldl (mapBlock_step m) [] (messagesByTopic b)\<rparr>)
                | None \<Rightarrow> None) blocks)"

text \<open>A \<open>Set<string>\<close> is the list of its members in insertion order; \<open>new Set(xs)\<close> is \<open>uniq xs\<close>.\<close>

definition mapKeyedTopics ::
  "(string, string list) js_map \<Rightarrow> TopicMapping \<Rightarrow> (string, string list) js_map" where
  "mapKeyedTopics tps mapping =
     (case mapping of
        EmptyMapping \<Rightarrow> tps
      | Mapping m \<Rightarrow>
          foldl (\<lambda>mappedTopics (key, vals).
                   js_map_set mappedTopics key
                     (uniq (concat (map (\<lambda>v. case js_map_get m v of Some ts \<Rightarrow> ts | None \<Rightarrow> [v]) vals))))
                [] tps)"

record 'p Progress =
  messageCache :: "'p MessageBlock option list option"

definition mapProgress :: "'p Progress \<Rightarrow> TopicMapping \<Rightarrow> 'p Progress" where
  "mapProgress progress mapping =
     (if mapping = EmptyMapping \<or> messageCache progress = None then progress
      else progress\<lparr>messageCache := map_option (\<lambda>blocks. mapBlocks blocks mapping) (messageCache progress)\<rparr>)"

definition mapTopics :: "Topic list \<Rightarrow> TopicMapping \<Rightarrow> Topic list" where
  "mapTopics tps mapping =
     (case mapping of
        EmptyMapping \<Rightarrow> tps
      | Mapping m \<Rightarrow>
          concat (map (\<lambda>tp. case js_map_get m (name tp) of
                               Some mappings \<Rightarrow> map (\<lambda>n. tp\<lparr>name := n, mappedFromName := Some (name tp)\<rparr>) mappings
                             | None \<Rightarrow> [tp]) tps))"

definition invert_step ::
  "(string, string list) js_map \<Rightarrow> string \<times> string list \<Rightarrow> (string, string list) js_map" where
  "invert_step inverted e =
     foldl (\<lambda>inverted v. js_map_set inverted v ((case js_map_get inverted v of Some ks \<Rightarrow> ks | None \<Rightarrow> []) @ [fst e]))
           inverted (snd e)"

definition invertMapping :: "TopicMapping \<Rightarrow> TopicMapping" where
  "invertMapping mapping =
     (case mapping of
        EmptyMapping \<Rightarrow> EmptyMapping
      | Mapping m \<Rightarrow> Mapping (foldl invert_step [] m))"

definition merge_step ::
  "(string, string list) js_map \<Rightarrow> string \<times> string \<Rightarrow> (string, string list) js_map" where
  "merge_step merged e =
     js_map_set merged (fst e)
       (uniq ((case js_map_get merged (fst e) of Some vs \<Rightarrow> vs | None \<Rightarrow> []) @ [snd e]))"

definition mergeMappings :: "(string, string) js_map list \<Rightarrow> (string, string list) js_map" where
  "mergeMappings maps = foldl (\<lambda>merged mp. foldl merge_step merged mp) [] maps"

text \<open>The \<open>mappings\<close> of \<open>buildMapping\<close>: every mapper run on the topics (\<open>[]\<close> when undefined) and variables.\<close>

definition run_mappers :: "'v MappingInputs \<Rightarrow> (string, string) js_map list" where
  "run_mappers inputs =
     map (\<lambda>mapper. mapper (case topics inputs of Some ts \<Rightarrow> ts | None \<Rightarrow> []) (variables inputs))
         (mappers inputs)"

definition buildMapping :: "'v MappingInputs \<Rightarrow> TopicMapping" where
  "buildMapping inputs =
     (let mappings = run_mappers inputs;
          anyMappings = list_ex (\<lambda>mp. length mp > 0) mappings
      in if anyMappings then Mapping (mergeMappings mappings) else EmptyMapping)"

text \<open>
  \<open>mapSubscriptions\<close>. The inverse of a mapping that is not the sentinel is a new \<open>Map\<close>, so
  the case of the sentinel after \<open>invertMapping\<close> is never taken; it is there because the
  case distinction has to be complete.
\<close>

definition mapSubscriptions ::
  "'v MappingInputs \<Rightarrow> 'p SubscribePayload list \<Rightarrow> 'p SubscribePayload list" where
  "mapSubscriptions inputs subcriptions =
     (let mapping = buildMapping inputs
      in if mapping = EmptyMapping then subcriptions
         else (case invertMapping mapping of
                 EmptyMapping \<Rightarrow> subcriptions
               | Mapping inverseMapping \<Rightarrow>
                   concat (map (\<lambda>sub. case js_map_get inverseMapping (sub_topic sub) of
                                         Some mappings \<Rightarrow> map (\<lambda>t. sub\<lparr>sub_topic := t\<rparr>) mappings
                                       | None \<Rightarrow> [sub]) subcriptions)))"

section \<open>The object a transform returns (mapping.ts)\<close>

text \<open>
  A transform returns either the very object it was given (\<open>return topics\<close>) or an object
  it has built (\<open>flatMap\<close>, \<open>map\<close>, \<open>new Map\<close> and an object literal each allocate). Callers
  compare by reference, so the two are told apart: \<open>Argument\<close> is the argument itself,
  \<open>Built v\<close> a new object with the content \<open>v\<close>, which is never the argument even when it has
  the same content.
\<close>

datatype 'a returned = Argument | Built 'a

definition returned_value :: "'a \<Rightarrow> 'a returned \<Rightarrow> 'a" where
  "returned_value arg r = (case r of Argument \<Rightarrow> arg | Built v \<Rightarrow> v)"

definition mapBlocks_returned ::
  "'p MessageBlock option list \<Rightarrow> TopicMapping \<Rightarrow> 'p MessageBlock option list returned" where
  "mapBlocks_returned blocks mapping =
     (case mapping of
        EmptyMapping \<Rightarrow> Argument
      | Mapping m \<Rightarrow>
          Built (map (\<lambda>block. case block of
                         Some b \<Rightarrow> Some (b\<lparr>messagesByTopic := foldl (mapBlock_step m) [] (messagesByTopic b)\<rparr>)
                       | None \<Rightarrow> None) blocks))"

definition mapMessages_returned ::
  "'p MessageEvent list \<Rightarrow> TopicMapping \<Rightarrow> 'p MessageEvent list returned" where
  "mapMessages_returned messages mapping =
     (case mapping of
        EmptyMapping \<Rightarrow> Argument
      | Mapping m \<Rightarrow>
          Built (concat (map (\<lambda>msg. case js_map_get m (topic msg) of
                                       Some mappings \<Rightarrow> map (\<lambda>t. msg\<lparr>topic := t\<rparr>) mappings
                                     | None \<Rightarrow> [msg]) messages)))"

definition mapKeyedTopics_returned ::
  "(string, string list) js_map \<Rightarrow> TopicMapping \<Rightarrow> (string, string list) js_map returned" where
  "mapKeyedTopics_returned tps mapping =
     (case mapping of
        EmptyMapping \<Rightarrow> Argument
      | Mapping m \<Rightarrow>
          Built (foldl (\<lambda>mappedTopics (key, vals).
                          js_map_set mappedTopics key
                            (uniq (concat (map (\<lambda>v. case js_map_get m v of Some ts \<Rightarrow> ts | None \<Rightarrow> [v]) vals))))
                       [] tps))"

definition mapProgress_returned :: "'p Progress \<Rightarrow> TopicMapping \<Rightarrow> 'p Progress returned" where
  "mapProgress_returned progress mapping =
     (if mapping = EmptyMapping \<or> messageCache progress = None then Argument
      else Built (progress\<lparr>messageCache :=
                    map_option (\<lambda>blocks. returned_value blocks (mapBlocks_returned blocks mapping))
                      (messageCache progress)\<rparr>))"

definition mapTopics_returned :: "Topic list \<Rightarrow> TopicMapping \<Rightarrow> Topic list returned" where
  "mapTopics_returned tps mapping =
     (case mapping of
        EmptyMapping \<Rightarrow> Argument
      | Mapping m \<Rightarrow>
          Built (concat (map (\<lambda>tp. case js_map_get m (name tp) of
                                      Some mappings \<Rightarrow>
                                        map (\<lambda>n. tp\<lparr>name := n, mappedFromName := Some (name tp)\<rparr>) mappings
                                    | None \<Rightarrow> [tp]) tps)))"

definition mapSubscriptions_returned ::
  "'v MappingInputs \<Rightarrow> 'p SubscribePayload list \<Rightarrow> 'p SubscribePayload list returned" where
  "mapSubscriptions_returned inputs subcriptions =
     (let mapping = buildMapping inputs
      in if mapping = EmptyMapping then Argument
         else (case invertMapping mapping of
                 EmptyMapping \<Rightarrow> Argument
               | Mapping inverseMapping \<Rightarrow>
                   Built (concat (map (\<lambda>sub. case js_map_get inverseMapping (sub_topic sub) of
                                                Some mappings \<Rightarrow> map (\<lambda>t. sub\<lparr>sub_topic := t\<rparr>) mappings
                                              | None \<Rightarrow> [sub]) subcriptions))))"

section \<open>Words of the specification\<close>

text \<open>
  The targets proposed for source \<open>k\<close>, in registration order: \<open>es\<close> is the entries of all
  mappers' outputs, one mapper after the other.
\<close>

definition proposals :: "string \<Rightarrow> (string, string) js_map \<Rightarrow> string list" where
  "proposals k es = map snd (filter (\<lambda>e. fst e = k) es)"

text \<open>The de-duplicated union of a list of names: every name once, at its first position.\<close>

definition dedup_union :: "'a list \<Rightarrow> 'a list" where
  "dedup_union xs = rev (remdups (rev xs))"

text \<open>The targets already merged for \<open>k\<close>: \<open>merged.get(k) ?? []\<close>.\<close>

definition old_targets :: "(string, string list) js_map \<Rightarrow> string \<Rightarrow> string list" where
  "old_targets m k = (case js_map_get m k of Some vs \<Rightarrow> vs | None \<Rightarrow> [])"

text \<open>
  The player state, reduced to the fields \<open>mapPlayerState\<close> reads or writes; the other
  fields are copied by the spread and are kept in \<open>ad_rest\<close> and \<open>ps_rest\<close>.
\<close>

record ('p, 'r) ActiveData =
  ad_topics :: "Topic list"
  ad_messages :: "'p MessageEvent list"
  publishedTopics :: "(string, string list) js_map option"
  subscribedTopics :: "(string, string list) js_map option"
  ad_rest :: 'r

record ('p, 'r) PlayerState =
  activeData :: "('p, 'r) ActiveData option"
  progress :: "'p Progress"
  ps_rest :: 'r

definition mapPlayerState ::
  "'v MappingInputs \<Rightarrow> ('p, 'r) PlayerState \<Rightarrow> ('p, 'r) PlayerState" where
  "mapPlayerState inputs playerState =
     (let mapping = buildMapping inputs;
          newActiveData =
            map_option
              (\<lambda>ad. ad\<lparr>ad_topics := mapTopics (ad_topics ad) mapping,
                        ad_messages := mapMessages (ad_messages ad) mapping,
                        publishedTopics := map_option (\<lambda>t. mapKeyedTopics t mapping) (publishedTopics ad),
                        subscribedTopics := map_option (\<lambda>t. mapKeyedTopics t mapping) (subscribedTopics ad)\<rparr>)
              (activeData playerState);
          newProgress =
            (if messageCache (progress playerState) \<noteq> None
             then mapProgress (progress playerState) mapping
             else progress playerState)
      in playerState\<lparr>activeData := newActiveData, progress := newProgress\<rparr>)"

section \<open>Topic mapping player (TopicMappingPlayer.ts)\<close>

text \<open>
  The wrapped player is an interface; it is modelled by the requests it has received
  through \<open>setSubscriptions\<close>, oldest first. The listener is modelled by the states it has
  been handed, oldest first; \<open>onPlayerState\<close> runs only once a listener is set.
\<close>

record 'p Player =
  received_subscriptions :: "'p SubscribePayload list list"


record ('v, 'p, 'r) TopicMappingPlayer =
  tmp_player :: "'p Player"
  tmp_inputs :: "'v MappingInputs"
  pendingSubscriptions :: "'p SubscribePayload list option"
  skipMapping :: bool
  listener_received :: "('p, 'r) PlayerState list"


definition setMappers ::
  "('v, 'p, 'r) TopicMappingPlayer \<Rightarrow> 'v TopicMapper list \<Rightarrow> ('v, 'p, 'r) TopicMappingPlayer" where
  "setMappers this ms =
     this\<lparr>tmp_inputs := (tmp_inputs this)\<lparr>mappers := ms\<rparr>, skipMapping := (length ms = 0)\<rparr>"

definition setGlobalVariables ::
  "('v, 'p, 'r) TopicMappingPlayer \<Rightarrow> 'v \<Rightarrow> ('v, 'p, 'r) TopicMappingPlayer" where
  "setGlobalVariables this globalVariables =
     this\<lparr>tmp_inputs := (tmp_inputs this)\<lparr>variables := globalVariables\<rparr>\<rparr>"



text \<open>
  Every (source, target) pair of a mapping, in the order \<open>invertMapping\<close> visits them, and
  the sources that have \<open>v\<close> among their targets, in that order.
\<close>

definition mapping_pairs :: "(string, string list) js_map \<Rightarrow> (string \<times> string) list" where
  "mapping_pairs m = concat (map (\<lambda>e. map (\<lambda>v. (fst e, v)) (snd e)) m)"

definition sources_of :: "string \<Rightarrow> (string, string list) js_map \<Rightarrow> string list" where
  "sources_of v m = map fst (filter (\<lambda>p. snd p = v) (mapping_pairs m))"

text \<open>The body of the inner loop of \<open>invertMapping\<close>, for one (source, target) pair.\<close>

definition invert_pair ::
  "(string, string list) js_map \<Rightarrow> string \<times> string \<Rightarrow> (string, string list) js_map" where
  "invert_pair inverted p = js_map_set inverted (snd p) (old_targets inverted (snd p) @ [fst p])"

section \<open>Namespaced topics (namespaceTopic.ts)\<close>

text \<open>
  \<open>encodeURIComponent\<close> and \<open>decodeURIComponent\<close> are functions of the language, modelled
  after ECMAScript on the UTF-8 form of a string: a \<open>string\<close> is the list of the bytes of
  the text in UTF-8. A JavaScript string that holds a lone surrogate has no UTF-8 form; it
  stands here for a byte list that is not valid UTF-8, and on it \<open>encodeURIComponent\<close>
  throws \<open>URIError\<close> (\<open>None\<close>).

  Encoding keeps the unreserved characters (letters, digits and \<open>- _ . ! ~ * ' ( )\<close>) and
  writes every other byte as \<open>%\<close> and two upper-case hexadecimal digits. Decoding reads
  \<open>%\<close> and two hexadecimal digits of either case as one byte, throws on a \<open>%\<close> not followed
  by two such digits, and throws when the decoded bytes are not valid UTF-8.
\<close>

definition uri_unreserved :: "char \<Rightarrow> bool" where
  "uri_unreserved c \<longleftrightarrow>
     c \<in> set ''ABCDEFGHIJKLMNOPQRSTUVWXYZabcdefghijklmnopqrstuvwxyz0123456789-_.!~*()'' \<or> c = CHR 0x27"

definition hex_digit :: "nat \<Rightarrow> char" where
  "hex_digit n = ''0123456789ABCDEF'' ! n"

definition hex_value :: "char \<Rightarrow> nat option" where
  "hex_value c = map_of (zip ''0123456789ABCDEF'' [0..<16] @ zip ''abcdef'' [10..<16]) c"

definition encode_byte :: "char \<Rightarrow> string" where
  "encode_byte c =
     (if uri_unreserved c then [c]
      else [CHR ''%'', hex_digit (of_char c div 16), hex_digit (of_char c mod 16)])"

definition utf8_cont :: "nat \<Rightarrow> bool" where
  "utf8_cont b \<longleftrightarrow> 0x80 \<le> b \<and> b \<le> 0xBF"

text \<open>
  The number of bytes of the well-formed UTF-8 sequence at the head of the list (Unicode,
  table 3-7: no overlong forms, no surrogates, nothing above U+10FFFF); 0 when there is
  none.
\<close>

fun utf8_head :: "nat list \<Rightarrow> nat" where
  "utf8_head [] = 0"
| "utf8_head (b0 # bs) =
     (if b0 < 0x80 then 1
      else if 0xC2 \<le> b0 \<and> b0 \<le> 0xDF then
        (case bs of b1 # _ \<Rightarrow> if utf8_cont b1 then 2 else 0 | _ \<Rightarrow> 0)
      else if 0xE0 \<le> b0 \<and> b0 \<le> 0xEF then
        (case bs of b1 # b2 # _ \<Rightarrow>
           if (if b0 = 0xE0 then 0xA0 \<le> b1 \<and> b1 \<le> 0xBF
               else if b0 = 0xED then 0x80 \<le> b1 \<and> b1 \<le> 0x9F
               else utf8_cont b1) \<and> utf8_cont b2 then 3 else 0
         | _ \<Rightarrow> 0)
      else if 0xF0 \<le> b0 \<and> b0 \<le> 0xF4 then
        (case bs of b1 # b2 # b3 # _ \<Rightarrow>
           if (if b0 = 0xF0 then 0x90 \<le> b1 \<and> b1 \<le> 0xBF
               else if b0 = 0xF4 then 0x80 \<le> b1 \<and> b1 \<le> 0x8F
               else utf8_cont b1) \<and> utf8_cont b2 \<and> utf8_cont b3 then 4 else 0
         | _ \<Rightarrow> 0)
      else 0)"

function utf8_valid :: "nat list \<Rightarrow> bool" where
  "utf8_valid bs =
     (if bs = [] then True
      else if utf8_head bs = 0 then False
      else utf8_valid (drop (utf8_head bs) bs))"
  by pat_completeness auto
termination
  by (relation "measure length") auto

definition well_formed :: "string \<Rightarrow> bool" where
  "well_formed s = utf8_valid (map of_char s)"

definition encodeURIComponent :: "string \<Rightarrow> string option" where
  "encodeURIComponent s = (if well_formed s then Some (concat (map encode_byte s)) else None)"

fun percent_decode :: "string \<Rightarrow> string option" where
  "percent_decode [] = Some []"
| "percent_decode (c # cs) =
     (if c = CHR ''%'' then
        (case cs of
           h # l # rest \<Rightarrow>
             (case (hex_value h, hex_value l) of
                (Some a, Some b) \<Rightarrow> map_option ((#) (char_of (16 * a + b))) (percent_decode rest)
              | _ \<Rightarrow> None)
         | _ \<Rightarrow> None)
      else map_option ((#) c) (percent_decode cs))"

definition decodeURIComponent :: "string \<Rightarrow> string option" where
  "decodeURIComponent s =
     (case percent_decode s of
        Some bs \<Rightarrow> if well_formed bs then Some bs else None
      | None \<Rightarrow> None)"

text \<open>\<open>namespaceTopic\<close> and \<open>unnamespacetopic\<close>; \<open>None\<close> is the \<open>URIError\<close> of the encoder or decoder.\<close>

definition namespaceTopic :: "string \<Rightarrow> string \<Rightarrow> string option" where
  "namespaceTopic tp schema =
     (case encodeURIComponent tp of
        None \<Rightarrow> None
      | Some t \<Rightarrow>
          (case encodeURIComponent schema of
             None \<Rightarrow> None
           | Some sc \<Rightarrow> Some (t @ '':'' @ sc)))"

text \<open>\<open>topic.split(":")[0]\<close>: the text before the first colon, all of it when there is none.\<close>

definition split_colon_first :: "string \<Rightarrow> string" where
  "split_colon_first s = takeWhile (\<lambda>c. c \<noteq> CHR '':'') s"

definition unnamespacetopic :: "string \<Rightarrow> string option" where
  "unnamespacetopic tp = decodeURIComponent (split_colon_first tp)"

section \<open>Config migration (config.ts)\<close>

text \<open>
  The config, reduced to the two records \<open>migrateConfigTopicsNodes\<close> reads and writes; the
  spread copies the other fields, kept in \<open>cfg_rest\<close>. The settings of a topic are of any
  type \<open>'s\<close> (\<open>undefined\<close> is one of its values). The order of the keys of the records built
  is no part of any statement below; entries are read with \<open>js_map_get\<close>.
\<close>

record ('s, 'r) RendererConfig =
  cfg_topics :: "(string, 's) js_map"
  namespacedTopics :: "(string, 's) js_map"
  cfg_rest :: 'r

text \<open>
  What the function returns: \<open>Unchanged\<close> is \<open>return oldConfig\<close>, the object it was given;
  \<open>Rebuilt c\<close> is the object literal it builds otherwise.
\<close>

datatype ('s, 'r) migration = Unchanged | Rebuilt "('s, 'r) RendererConfig"

text \<open>Assigning the entries of \<open>es\<close> to the record \<open>m\<close> one after the other (\<open>{...m, ...es}\<close>).\<close>

definition js_map_assign :: "('k, 'v) js_map \<Rightarrow> ('k, 'v) js_map \<Rightarrow> ('k, 'v) js_map" where
  "js_map_assign m es = foldl (\<lambda>a e. js_map_set a (fst e) (snd e)) m es"

text \<open>
  One iteration of the loop over \<open>Object.entries(oldConfig.topics)\<close>. The set
  \<open>ALL_SUPPORTED_SCHEMAS\<close> is built from constants of other modules and is the parameter
  \<open>supported\<close>. A string is truthy when it is not empty. \<open>None\<close> is a \<open>URIError\<close> thrown by
  \<open>namespaceTopic\<close>. Both accumulators are objects made by \<open>{}\<close> and are written by
  assignment.
\<close>

definition migrate_entry ::
  "string list \<Rightarrow> Topic list \<Rightarrow> (string, 's) js_map \<times> (string, 's) js_map \<Rightarrow> string \<times> 's
     \<Rightarrow> ((string, 's) js_map \<times> (string, 's) js_map) option" where
  "migrate_entry supported tps acc e =
     (case acc of (unmigratedTopics, newNamespacedTopics) \<Rightarrow>
      (case List.find (\<lambda>top. name top = fst e) tps of
         Some tp \<Rightarrow>
           if (case schemaName tp of Some sn \<Rightarrow> sn \<noteq> [] \<and> sn \<in> set supported | None \<Rightarrow> False)
           then (case namespaceTopic (name tp) (case schemaName tp of Some sn \<Rightarrow> sn | None \<Rightarrow> []) of
                   Some mappedKey \<Rightarrow> Some (unmigratedTopics, js_object_assign newNamespacedTopics mappedKey (snd e))
                 | None \<Rightarrow> None)
           else (case (case convertibleTo tp of
                         Some cs \<Rightarrow> List.find (\<lambda>schema. schema \<in> set supported) cs
                       | None \<Rightarrow> None) of
                   Some convertibleSchema \<Rightarrow>
                     if convertibleSchema \<noteq> []
                     then (case namespaceTopic (name tp) convertibleSchema of
                             Some mappedKey \<Rightarrow>
                               Some (unmigratedTopics, js_object_assign newNamespacedTopics mappedKey (snd e))
                           | None \<Rightarrow> None)
                     else Some (js_object_assign unmigratedTopics (fst e) (snd e), newNamespacedTopics)
                 | None \<Rightarrow> Some (js_object_assign unmigratedTopics (fst e) (snd e), newNamespacedTopics))
       | None \<Rightarrow> Some (js_object_assign unmigratedTopics (fst e) (snd e), newNamespacedTopics)))"

fun migrate_entries ::
  "string list \<Rightarrow> Topic list \<Rightarrow> (string, 's) js_map \<times> (string, 's) js_map \<Rightarrow> (string, 's) js_map
     \<Rightarrow> ((string, 's) js_map \<times> (string, 's) js_map) option" where
  "migrate_entries supported tps acc [] = Some acc"
| "migrate_entries supported tps acc (e # es) =
     (case migrate_entry supported tps acc e of
        None \<Rightarrow> None
      | Some acc' \<Rightarrow> migrate_entries supported tps acc' es)"

definition migrateConfigTopicsNodes ::
  "string list \<Rightarrow> ('s, 'r) RendererConfig \<Rightarrow> Topic list \<Rightarrow> ('s, 'r) migration option" where
  "migrateConfigTopicsNodes supported oldConfig tps =
     (if length tps = 0 then Some Unchanged
      else (case migrate_entries supported tps ([], []) (cfg_topics oldConfig) of
              None \<Rightarrow> None
            | Some (unmigratedTopics, newNamespacedTopics) \<Rightarrow>
                if newNamespacedTopics = [] then Some Unchanged
                else Some (Rebuilt (oldConfig
                       \<lparr>namespacedTopics := js_map_assign (namespacedTopics oldConfig) newNamespacedTopics,
                        cfg_topics := unmigratedTopics\<rparr>))))"

text \<open>
  In the words of the specification: the schema under which a legacy entry moves. A topic
  moves under its own schema when that is supported, else under the first supported schema
  among those it is convertible to, in the declared order; an entry whose topic is not in
  the list, or has no such schema, does not move.
\<close>

definition first_convertible :: "string list \<Rightarrow> Topic \<Rightarrow> string option" where
  "first_convertible supported tp =
     (case convertibleTo tp of Some cs \<Rightarrow> List.find (\<lambda>c. c \<in> set supported) cs | None \<Rightarrow> None)"

definition target_schema :: "string list \<Rightarrow> Topic \<Rightarrow> string option" where
  "target_schema supported tp =
     (case schemaName tp of
        Some sn \<Rightarrow> if sn \<in> set supported then Some sn else first_convertible supported tp
      | None \<Rightarrow> first_convertible supported tp)"

definition moves_under :: "string list \<Rightarrow> Topic list \<Rightarrow> string \<Rightarrow> string option" where
  "moves_under supported tps key =
     (case List.find (\<lambda>top. name top = key) tps of
        Some tp \<Rightarrow> target_schema supported tp
      | None \<Rightarrow> None)"

text \<open>The names of a topic are strings on which \<open>namespaceTopic\<close> does not throw.\<close>

definition topic_well_formed :: "Topic \<Rightarrow> bool" where
  "topic_well_formed tp \<longleftrightarrow>
     well_formed (name tp) \<and>
     (case schemaName tp of Some sn \<Rightarrow> well_formed sn | None \<Rightarrow> True) \<and>
     (case convertibleTo tp of Some cs \<Rightarrow> list_all well_formed cs | None \<Rightarrow> True)"

text \<open>
  The namespaced key of a well-formed pair; the entries that the loop moves, rekeyed, in
  the order of the legacy record; and the entries that the loop assigns to
  \<open>unmigratedTopics\<close> and that become own properties of it.
\<close>

definition ns_key :: "string \<Rightarrow> string \<Rightarrow> string" where
  "ns_key tp schema = concat (map encode_byte tp) @ CHR '':'' # concat (map encode_byte schema)"

definition moved_entries :: "string list \<Rightarrow> Topic list \<Rightarrow> (string, 's) js_map \<Rightarrow> (string, 's) js_map" where
  "moved_entries supported tps es =
     concat (map (\<lambda>e. case moves_under supported tps (fst e) of
                         Some sch \<Rightarrow> [(ns_key (fst e) sch, snd e)]
                       | None \<Rightarrow> []) es)"

definition kept_entries :: "string list \<Rightarrow> Topic list \<Rightarrow> (string, 's) js_map \<Rightarrow> (string, 's) js_map" where
  "kept_entries supported tps es =
     filter (\<lambda>e. moves_under supported tps (fst e) = None \<and> fst e \<noteq> ''__proto__'') es"

section \<open>Synchronized message handler (MessageHandler.ts)\<close>

subsection \<open>Time and the ordered index\<close>

text \<open>
  \<open>Time\<close> and its functions come from the package \<open>@foxglove/rostime\<close>: \<open>compare\<close> is the
  difference of the seconds, or of the nanoseconds when the seconds are equal;
  \<open>isLessThan\<close> is \<open>compare < 0\<close>; \<open>toNanoSec\<close> and \<open>fromNanoSec\<close> convert to and from a
  count of nanoseconds.
\<close>

record Time =
  sec :: nat
  nsec :: nat

definition compareTime :: "Time \<Rightarrow> Time \<Rightarrow> int" where
  "compareTime l r =
     (let secDiff = int (sec l) - int (sec r)
      in if secDiff \<noteq> 0 then secDiff else int (nsec l) - int (nsec r))"

definition isLessThan :: "Time \<Rightarrow> Time \<Rightarrow> bool" where
  "isLessThan l r \<longleftrightarrow> compareTime l r < 0"

definition toNanoSec :: "Time \<Rightarrow> nat" where
  "toNanoSec t = sec t * 1000000000 + nsec t"

definition fromNanoSec :: "nat \<Rightarrow> Time" where
  "fromNanoSec n = \<lparr>sec = n div 1000000000, nsec = n mod 1000000000\<rparr>"

text \<open>
  The index is an \<open>AVLTree<Time, SynchronizationItem>\<close> of the package \<open>@foxglove/avl\<close>,
  ordered by \<open>compare\<close>. It is modelled by the list of its entries in ascending order of
  the keys, which is what \<open>entries()\<close> iterates: \<open>get\<close> and \<open>set\<close> find a key by
  \<open>compare = 0\<close>, \<open>set\<close> replaces the value of a key that is present and inserts a new key
  at its place in the order, \<open>minKey\<close> is the first key, \<open>shift\<close> removes the first entry.
\<close>

type_synonym 'v tree = "(Time \<times> 'v) list"

fun tree_get :: "'v tree \<Rightarrow> Time \<Rightarrow> 'v option" where
  "tree_get [] k = None"
| "tree_get ((k', v) # t) k = (if compareTime k k' = 0 then Some v else tree_get t k)"

fun tree_set :: "'v tree \<Rightarrow> Time \<Rightarrow> 'v \<Rightarrow> 'v tree" where
  "tree_set [] k v = [(k, v)]"
| "tree_set ((k', v') # t) k v =
     (if compareTime k k' < 0 then (k, v) # (k', v') # t
      else if compareTime k k' = 0 then (k', v) # t
      else (k', v') # tree_set t k v)"

definition minKey :: "'v tree \<Rightarrow> Time option" where
  "minKey t = (case t of [] \<Rightarrow> None | (k, v) # _ \<Rightarrow> Some k)"

definition shift :: "'v tree \<Rightarrow> 'v tree" where
  "shift t = (case t of [] \<Rightarrow> [] | _ # r \<Rightarrow> r)"

subsection \<open>Messages and state\<close>

text \<open>
  A normalized image message carries the timestamp that \<open>getTimestampFromImage\<close> reads; an
  annotation carries its own timestamp. The remaining contents are of any type.
\<close>

record 'i ImageMessage =
  img_stamp :: Time
  img_rest :: 'i

record 'a Annotation =
  stamp :: Time
  ann_rest :: 'a

record 'm AnnotationEvent =
  ae_topic :: string
  ae_schemaName :: string
  ae_message :: 'm

record ('m, 'a) NormalizedAnnotations =
  originalMessage :: "'m AnnotationEvent"
  annotations :: "'a Annotation list"

record ('i, 'm, 'a) SynchronizationItem =
  item_image :: "'i ImageMessage option"
  annotationsByNamespacedTopic :: "(string, ('m, 'a) NormalizedAnnotations) js_map"

record ('i, 'c, 'm, 'a) MessageHandlerState =
  st_image :: "'i ImageMessage option"
  st_cameraInfo :: "'c option"
  st_annotations :: "(string, ('m, 'a) NormalizedAnnotations) js_map"

text \<open>
  \<open>MessageRenderState = Partial<MessageHandlerState>\<close>: in synchronized mode without a
  synchronized set the object has only the key \<open>cameraInfo\<close>, so the annotations are
  optional too.
\<close>

record ('i, 'c, 'm, 'a) MessageRenderState =
  rs_image :: "'i ImageMessage option"
  rs_cameraInfo :: "'c option"
  rs_annotations :: "(string, ('m, 'a) NormalizedAnnotations) js_map option"

text \<open>
  The annotation settings of the config: a record from namespaced topic to settings, of
  which only \<open>settings?.visible\<close> is read (\<open>None\<close> when undefined). \<open>setConfig\<close> compares
  two such objects by reference, so the object carries its identity \<open>ann_ref\<close>.
\<close>

record AnnotationsConfig =
  ann_ref :: nat
  ann_entries :: "(string, bool option) js_map"

record MessageHandlerConfig =
  synchronize :: "bool option"
  cfg_annotations :: "AnnotationsConfig option"
  calibrationTopic :: "string option"
  imageTopic :: "string option"

text \<open>
  \<open>Partial<ImageModeConfig>\<close>: a key may be absent (\<open>None\<close>) or present with a value that
  may be \<open>undefined\<close> (\<open>Some None\<close>).
\<close>

record PartialConfig =
  new_synchronize :: "bool option option"
  new_annotations :: "AnnotationsConfig option option"
  new_calibrationTopic :: "string option option"
  new_imageTopic :: "string option option"

text \<open>
  The handler. The listeners are modelled by the calls they have received: each emission
  appends the pair of the new and the previous render state to \<open>notified\<close>.
\<close>

record ('i, 'c, 'm, 'a) MessageHandler =
  config :: MessageHandlerConfig
  oldRenderState :: "('i, 'c, 'm, 'a) MessageRenderState option"
  lastReceivedMessages :: "('i, 'c, 'm, 'a) MessageHandlerState"
  tree :: "('i, 'm, 'a) SynchronizationItem tree"
  notified :: "(('i, 'c, 'm, 'a) MessageRenderState \<times> ('i, 'c, 'm, 'a) MessageRenderState option) list"

definition MessageHandler_new :: "MessageHandlerConfig \<Rightarrow> ('i, 'c, 'm, 'a) MessageHandler" where
  "MessageHandler_new cfg =
     \<lparr>config = cfg, oldRenderState = None,
      lastReceivedMessages = \<lparr>st_image = None, st_cameraInfo = None, st_annotations = []\<rparr>,
      tree = [], notified = []\<rparr>"

subsection \<open>Finding the synchronized set\<close>

text \<open>\<open>Map.size\<close> and \<open>Set.size\<close> are the lengths of the lists, whose keys are distinct.\<close>

definition hasOnlyVisibleAnnotations ::
  "string list \<Rightarrow> ('i, 'm, 'a) SynchronizationItem \<Rightarrow> bool" where
  "hasOnlyVisibleAnnotations visibleAnnotations messageState \<longleftrightarrow>
     length visibleAnnotations = length (annotationsByNamespacedTopic messageState) \<and>
     list_all (\<lambda>tp. js_map_get (annotationsByNamespacedTopic messageState) tp \<noteq> None) visibleAnnotations"

text \<open>The loop \<open>while (minKey && isLessThan(minKey, validEntry[0])) tree.shift()\<close>.\<close>

fun shift_older :: "'v tree \<Rightarrow> Time \<Rightarrow> 'v tree" where
  "shift_older [] w = []"
| "shift_older ((k, v) # t) w = (if isLessThan k w then shift_older t w else (k, v) # t)"

definition findSynchronizedSetAndRemoveOlderItems ::
  "('i, 'm, 'a) SynchronizationItem tree \<Rightarrow> string list
     \<Rightarrow> (Time \<times> ('i, 'm, 'a) SynchronizationItem) option \<times> ('i, 'm, 'a) SynchronizationItem tree" where
  "findSynchronizedSetAndRemoveOlderItems tr visibleAnnotations =
     (let validEntry =
            foldl (\<lambda>valid entry.
                     if item_image (snd entry) \<noteq> None \<and> hasOnlyVisibleAnnotations visibleAnnotations (snd entry)
                     then Some entry else valid)
                  None tr
      in case validEntry of
           Some entry \<Rightarrow> (validEntry, shift_older tr (fst entry))
         | None \<Rightarrow> (validEntry, tr))"

definition visibleAnnotations :: "MessageHandlerConfig \<Rightarrow> string list" where
  "visibleAnnotations cfg =
     uniq (map fst (filter (\<lambda>e. snd e = Some True)
                           (case cfg_annotations cfg of Some a \<Rightarrow> ann_entries a | None \<Rightarrow> [])))"

definition getRenderState ::
  "('i, 'c, 'm, 'a) MessageHandler \<Rightarrow> ('i, 'c, 'm, 'a) MessageRenderState \<times> ('i, 'c, 'm, 'a) MessageHandler" where
  "getRenderState this =
     (if synchronize (config this) = Some True then
        (case findSynchronizedSetAndRemoveOlderItems (tree this) (visibleAnnotations (config this)) of
           (Some validEntry, tr) \<Rightarrow>
             (\<lparr>rs_image = item_image (snd validEntry),
               rs_cameraInfo = st_cameraInfo (lastReceivedMessages this),
               rs_annotations = Some (annotationsByNamespacedTopic (snd validEntry))\<rparr>,
              this\<lparr>tree := tr\<rparr>)
         | (None, tr) \<Rightarrow>
             (\<lparr>rs_image = None,
               rs_cameraInfo = st_cameraInfo (lastReceivedMessages this),
               rs_annotations = None\<rparr>,
              this\<lparr>tree := tr\<rparr>))
      else
        (\<lparr>rs_image = st_image (lastReceivedMessages this),
          rs_cameraInfo = st_cameraInfo (lastReceivedMessages this),
          rs_annotations = Some (st_annotations (lastReceivedMessages this))\<rparr>,
         this))"

definition emitState :: "('i, 'c, 'm, 'a) MessageHandler \<Rightarrow> ('i, 'c, 'm, 'a) MessageHandler" where
  "emitState this =
     (case getRenderState this of
        (state, this') \<Rightarrow>
          this'\<lparr>notified := notified this' @ [(state, oldRenderState this')],
                oldRenderState := Some state\<rparr>)"

subsection \<open>Handling messages\<close>

text \<open>
  \<open>#handleImage\<close>, given the normalized image message. In synchronized mode the entry at
  the image's timestamp gets the image (the source assigns the field of the item the tree
  holds), or a new entry is made.
\<close>

definition store_image ::
  "('i, 'm, 'a) SynchronizationItem tree \<Rightarrow> 'i ImageMessage \<Rightarrow> ('i, 'm, 'a) SynchronizationItem tree" where
  "store_image tr normalizedImageMessage =
     (case tree_get tr (img_stamp normalizedImageMessage) of
        Some item \<Rightarrow> tree_set tr (img_stamp normalizedImageMessage) (item\<lparr>item_image := Some normalizedImageMessage\<rparr>)
      | None \<Rightarrow>
          tree_set tr (img_stamp normalizedImageMessage)
            \<lparr>item_image = Some normalizedImageMessage, annotationsByNamespacedTopic = []\<rparr>)"

definition handleImage ::
  "('i, 'c, 'm, 'a) MessageHandler \<Rightarrow> 'i ImageMessage \<Rightarrow> ('i, 'c, 'm, 'a) MessageHandler" where
  "handleImage this normalizedImageMessage =
     (if synchronize (config this) \<noteq> Some True then
        emitState (this\<lparr>lastReceivedMessages :=
                          (lastReceivedMessages this)\<lparr>st_image := Some normalizedImageMessage\<rparr>\<rparr>)
      else emitState (this\<lparr>tree := store_image (tree this) normalizedImageMessage\<rparr>))"

definition handleCameraInfo ::
  "('i, 'c, 'm, 'a) MessageHandler \<Rightarrow> 'c \<Rightarrow> ('i, 'c, 'm, 'a) MessageHandler" where
  "handleCameraInfo this cameraInfo =
     emitState (this\<lparr>lastReceivedMessages := (lastReceivedMessages this)\<lparr>st_cameraInfo := Some cameraInfo\<rparr>\<rparr>)"

text \<open>Grouping the annotations of one message by \<open>toNanoSec(annotation.stamp)\<close>.\<close>

definition group_annotations :: "'a Annotation list \<Rightarrow> (nat, 'a Annotation list) js_map" where
  "group_annotations anns =
     foldl (\<lambda>groups annotation.
              let key = toNanoSec (stamp annotation)
              in case js_map_get groups key of
                   Some arr \<Rightarrow> js_map_set groups key (arr @ [annotation])
                 | None \<Rightarrow> js_map_set groups key [annotation])
           [] anns"

text \<open>One iteration of \<open>for (const [stampNsec, group] of groups)\<close>.\<close>

definition store_group ::
  "string \<Rightarrow> 'm AnnotationEvent \<Rightarrow> ('i, 'm, 'a) SynchronizationItem tree \<Rightarrow> nat \<times> 'a Annotation list
     \<Rightarrow> ('i, 'm, 'a) SynchronizationItem tree" where
  "store_group namespacedTopic messageEvent tr g =
     (let stmp = fromNanoSec (fst g);
          item = (case tree_get tr stmp of
                    Some it \<Rightarrow> it
                  | None \<Rightarrow> \<lparr>item_image = None, annotationsByNamespacedTopic = []\<rparr>)
      in tree_set tr stmp
           (item\<lparr>annotationsByNamespacedTopic :=
                    js_map_set (annotationsByNamespacedTopic item) namespacedTopic
                      \<lparr>originalMessage = messageEvent, annotations = snd g\<rparr>\<rparr>))"

text \<open>
  \<open>handleAnnotations\<close>. The normalizer of the wire formats is a collaborator outside this
  module and is the parameter \<open>normalizeAnnotations\<close>. \<open>None\<close> is the \<open>URIError\<close> of
  \<open>namespaceTopic\<close>.
\<close>

definition handleAnnotations ::
  "('m \<Rightarrow> string \<Rightarrow> 'a Annotation list) \<Rightarrow> ('i, 'c, 'm, 'a) MessageHandler \<Rightarrow> 'm AnnotationEvent
     \<Rightarrow> ('i, 'c, 'm, 'a) MessageHandler option" where
  "handleAnnotations normalizeAnnotations this messageEvent =
     (let anns = normalizeAnnotations (ae_message messageEvent) (ae_schemaName messageEvent)
      in case namespaceTopic (ae_topic messageEvent) (ae_schemaName messageEvent) of
           None \<Rightarrow> None
         | Some namespacedTopic \<Rightarrow>
             if synchronize (config this) \<noteq> Some True then
               Some (emitState (this\<lparr>lastReceivedMessages :=
                       (lastReceivedMessages this)\<lparr>st_annotations :=
                          js_map_set (st_annotations (lastReceivedMessages this)) namespacedTopic
                            \<lparr>originalMessage = messageEvent, annotations = anns\<rparr>\<rparr>\<rparr>))
             else
               Some (emitState (this\<lparr>tree :=
                       foldl (store_group namespacedTopic messageEvent) (tree this) (group_annotations anns)\<rparr>)))"

subsection \<open>Reconfiguration\<close>

text \<open>
  \<open>Map.delete\<close>, and the loop \<open>for (const topic of m.keys()) if (newVisible.get(topic) ==
  undefined) { m.delete(topic); changed = true }\<close>, which returns the map and whether it
  deleted anything.
\<close>

definition js_map_delete :: "('k, 'v) js_map \<Rightarrow> 'k \<Rightarrow> ('k, 'v) js_map" where
  "js_map_delete m k = filter (\<lambda>e. fst e \<noteq> k) m"

definition delete_invisible ::
  "(string, bool) js_map \<Rightarrow> (string, 'v) js_map \<Rightarrow> (string, 'v) js_map \<times> bool" where
  "delete_invisible newVisibleAnnotationsMap m =
     foldl (\<lambda>acc tp. if js_map_get newVisibleAnnotationsMap tp = None
                       then (js_map_delete (fst acc) tp, True) else acc)
           (m, False) (js_map_keys m)"

definition newVisibleAnnotationsMap :: "AnnotationsConfig \<Rightarrow> (string, bool) js_map" where
  "newVisibleAnnotationsMap a =
     foldl (\<lambda>m e. if snd e = Some True then js_map_set m (fst e) True else m) [] (ann_entries a)"

text \<open>
  The four resets of \<open>setConfig\<close>, each returning the handler and whether it set \<open>changed\<close>.
\<close>

definition reset_synchronize ::
  "PartialConfig \<Rightarrow> ('i, 'c, 'm, 'a) MessageHandler \<Rightarrow> ('i, 'c, 'm, 'a) MessageHandler \<times> bool" where
  "reset_synchronize newConfig this =
     (case new_synchronize newConfig of
        Some (Some b) \<Rightarrow>
          if Some b \<noteq> synchronize (config this) then (this\<lparr>tree := []\<rparr>, True) else (this, False)
      | _ \<Rightarrow> (this, False))"

definition reset_imageTopic ::
  "PartialConfig \<Rightarrow> ('i, 'c, 'm, 'a) MessageHandler \<Rightarrow> ('i, 'c, 'm, 'a) MessageHandler \<times> bool" where
  "reset_imageTopic newConfig this =
     (case new_imageTopic newConfig of
        Some v \<Rightarrow>
          if imageTopic (config this) \<noteq> v then
            (this\<lparr>tree := map (\<lambda>e. (fst e, (snd e)\<lparr>item_image := None\<rparr>)) (tree this),
                  lastReceivedMessages := (lastReceivedMessages this)\<lparr>st_image := None\<rparr>\<rparr>, True)
          else (this, False)
      | None \<Rightarrow> (this, False))"

definition reset_calibrationTopic ::
  "PartialConfig \<Rightarrow> ('i, 'c, 'm, 'a) MessageHandler \<Rightarrow> ('i, 'c, 'm, 'a) MessageHandler \<times> bool" where
  "reset_calibrationTopic newConfig this =
     (case new_calibrationTopic newConfig of
        Some v \<Rightarrow>
          if calibrationTopic (config this) \<noteq> v then
            (this\<lparr>lastReceivedMessages := (lastReceivedMessages this)\<lparr>st_cameraInfo := None\<rparr>\<rparr>, True)
          else (this, False)
      | None \<Rightarrow> (this, False))"

definition reset_annotations ::
  "PartialConfig \<Rightarrow> ('i, 'c, 'm, 'a) MessageHandler \<Rightarrow> ('i, 'c, 'm, 'a) MessageHandler \<times> bool" where
  "reset_annotations newConfig this =
     (case new_annotations newConfig of
        Some (Some newAnn) \<Rightarrow>
          (case cfg_annotations (config this) of
             Some oldAnn \<Rightarrow>
               if ann_ref oldAnn \<noteq> ann_ref newAnn then
                 (let vis = newVisibleAnnotationsMap newAnn;
                      cur = delete_invisible vis (st_annotations (lastReceivedMessages this))
                  in (this\<lparr>lastReceivedMessages := (lastReceivedMessages this)\<lparr>st_annotations := fst cur\<rparr>,
                           tree := map (\<lambda>e. (fst e, (snd e)\<lparr>annotationsByNamespacedTopic :=
                                                 fst (delete_invisible vis (annotationsByNamespacedTopic (snd e)))\<rparr>))
                                       (tree this)\<rparr>,
                      snd cur \<or>
                      list_ex (\<lambda>e. snd (delete_invisible vis (annotationsByNamespacedTopic (snd e)))) (tree this)))
               else (this, False)
           | None \<Rightarrow> (this, False))
      | _ \<Rightarrow> (this, False))"

text \<open>\<open>{...this.#config, ...newConfig}\<close>: a key present in \<open>newConfig\<close> wins, also when undefined.\<close>

definition merge_config :: "MessageHandlerConfig \<Rightarrow> PartialConfig \<Rightarrow> MessageHandlerConfig" where
  "merge_config cfg newConfig =
     \<lparr>synchronize = (case new_synchronize newConfig of Some v \<Rightarrow> v | None \<Rightarrow> synchronize cfg),
      cfg_annotations = (case new_annotations newConfig of Some v \<Rightarrow> v | None \<Rightarrow> cfg_annotations cfg),
      calibrationTopic = (case new_calibrationTopic newConfig of Some v \<Rightarrow> v | None \<Rightarrow> calibrationTopic cfg),
      imageTopic = (case new_imageTopic newConfig of Some v \<Rightarrow> v | None \<Rightarrow> imageTopic cfg)\<rparr>"

text \<open>
  The body of \<open>setConfig\<close> up to the assignment of \<open>this.#config\<close>: the resets in the order
  of the source, every test reading the config from before the call.
\<close>

definition setConfig_resets ::
  "('i, 'c, 'm, 'a) MessageHandler \<Rightarrow> PartialConfig \<Rightarrow> ('i, 'c, 'm, 'a) MessageHandler \<times> bool" where
  "setConfig_resets this newConfig =
     (let (this1, c1) = reset_synchronize newConfig this;
          (this2, c2) = reset_imageTopic newConfig this1;
          (this3, c3) = reset_calibrationTopic newConfig this2;
          (this4, c4) = reset_annotations newConfig this3
      in (this4, c1 \<or> c2 \<or> c3 \<or> c4))"

definition setConfig ::
  "('i, 'c, 'm, 'a) MessageHandler \<Rightarrow> PartialConfig \<Rightarrow> ('i, 'c, 'm, 'a) MessageHandler" where
  "setConfig this newConfig =
     (case setConfig_resets this newConfig of
        (this', changed) \<Rightarrow>
          (let this'' = this'\<lparr>config := merge_config (config this') newConfig\<rparr>
           in if changed then emitState this'' else this''))"

definition clear :: "('i, 'c, 'm, 'a) MessageHandler \<Rightarrow> ('i, 'c, 'm, 'a) MessageHandler" where
  "clear this =
     emitState (this\<lparr>lastReceivedMessages := \<lparr>st_image = None, st_cameraInfo = None, st_annotations = []\<rparr>,
                     tree := [], oldRenderState := None\<rparr>)"

subsection \<open>The invariant of the index\<close>

text \<open>
  The entries of the tree are in strictly ascending order of their keys, and the keys of
  every \<open>Map\<close> of annotation batches are distinct.
\<close>

definition index_ok :: "('i, 'm, 'a) SynchronizationItem tree \<Rightarrow> bool" where
  "index_ok tr \<longleftrightarrow>
     sorted_wrt isLessThan (map fst tr) \<and>
     list_all (\<lambda>e. distinct (js_map_keys (annotationsByNamespacedTopic (snd e)))) tr"

text \<open>
  In the words of the specification: an entry qualifies when it has an image and the set
  of its annotation topics is the set of visible annotation topics.
\<close>

definition qualifies :: "string list \<Rightarrow> Time \<times> ('i, 'm, 'a) SynchronizationItem \<Rightarrow> bool" where
  "qualifies vis e \<longleftrightarrow>
     item_image (snd e) \<noteq> None \<and> set (js_map_keys (annotationsByNamespacedTopic (snd e))) = set vis"

text \<open>
  In the words of the specification: when each reset of \<open>setConfig\<close> applies, which
  annotation topics a settings object makes visible, and a map of batches without its
  invisible ones.
\<close>

definition synchronize_toggled :: "MessageHandlerConfig \<Rightarrow> PartialConfig \<Rightarrow> bool" where
  "synchronize_toggled cfg newConfig \<longleftrightarrow>
     (case new_synchronize newConfig of Some (Some b) \<Rightarrow> Some b \<noteq> synchronize cfg | _ \<Rightarrow> False)"

definition imageTopic_changed :: "MessageHandlerConfig \<Rightarrow> PartialConfig \<Rightarrow> bool" where
  "imageTopic_changed cfg newConfig \<longleftrightarrow>
     (case new_imageTopic newConfig of Some v \<Rightarrow> imageTopic cfg \<noteq> v | None \<Rightarrow> False)"

definition calibrationTopic_changed :: "MessageHandlerConfig \<Rightarrow> PartialConfig \<Rightarrow> bool" where
  "calibrationTopic_changed cfg newConfig \<longleftrightarrow>
     (case new_calibrationTopic newConfig of Some v \<Rightarrow> calibrationTopic cfg \<noteq> v | None \<Rightarrow> False)"

text \<open>
  The new annotation settings, when the call gives a settings object, the config has one,
  and the two are different objects.
\<close>

definition annotations_replaced :: "MessageHandlerConfig \<Rightarrow> PartialConfig \<Rightarrow> AnnotationsConfig option" where
  "annotations_replaced cfg newConfig =
     (case new_annotations newConfig of
        Some (Some newAnn) \<Rightarrow>
          (case cfg_annotations cfg of
             Some oldAnn \<Rightarrow> if ann_ref oldAnn \<noteq> ann_ref newAnn then Some newAnn else None
           | None \<Rightarrow> None)
      | _ \<Rightarrow> None)"

definition visible_in :: "AnnotationsConfig \<Rightarrow> string \<Rightarrow> bool" where
  "visible_in a tp \<longleftrightarrow> (tp, Some True) \<in> set (ann_entries a)"

definition keep_visible :: "AnnotationsConfig \<Rightarrow> (string, 'v) js_map \<Rightarrow> (string, 'v) js_map" where
  "keep_visible a m = filter (\<lambda>e. visible_in a (fst e)) m"

definition has_invisible :: "AnnotationsConfig \<Rightarrow> (string, 'v) js_map \<Rightarrow> bool" where
  "has_invisible a m \<longleftrightarrow> list_ex (\<lambda>e. \<not> visible_in a (fst e)) m"







section \<open>Concrete inputs\<close>

text \<open>Two mappers that both rename \<open>/a\<close>, the second one also renaming \<open>/x\<close>.\<close>

definition two_mappers :: "unit MappingInputs" where
  "two_mappers = \<lparr>mappers = [\<lambda>ts vs. [(''/a'', ''/b'')], \<lambda>ts vs. [(''/x'', ''/y''), (''/a'', ''/c'')]],
                   topics = None, variables = ()\<rparr>"

text \<open>One mapper that renames two topics to the same name.\<close>

definition two_sources :: "unit MappingInputs" where
  "two_sources = \<lparr>mappers = [\<lambda>ts vs. [(''/a'', ''/b''), (''/a2'', ''/b'')]], topics = None, variables = ()\<rparr>"

text \<open>A single registered mapper that proposes no rename.\<close>

definition idle_mapper :: "unit MappingInputs" where
  "idle_mapper = \<lparr>mappers = [\<lambda>ts vs. []], topics = Some [], variables = ()\<rparr>"

text \<open>A topic list, and a request, to hand to the transforms.\<close>

definition one_topic :: "Topic list" where
  "one_topic = [\<lparr>name = ''/b'', schemaName = Some ''foxglove.Grid'', convertibleTo = None,
                 mappedFromName = None\<rparr>]"

definition one_request :: "unit SubscribePayload list" where
  "one_request = [\<lparr>sub_topic = ''/b'', sub_rest = ()\<rparr>]"





text \<open>The config and topic list of the test of \<open>migrateConfigTopicsNodes\<close> (config.test.ts).\<close>

definition test_config :: "(nat, unit) RendererConfig" where
  "test_config =
     \<lparr>cfg_topics = [(''topic_a'', 1), (''topic_b'', 2), (''topic_c'', 3), (''/robot_description'', 4)],
      namespacedTopics = [], cfg_rest = ()\<rparr>"

definition test_topics :: "Topic list" where
  "test_topics =
     [\<lparr>name = ''topic_a'', schemaName = Some ''foxglove.Grid'', convertibleTo = None, mappedFromName = None\<rparr>,
      \<lparr>name = ''topic_c'', schemaName = Some ''unsupported.Schema'',
       convertibleTo = Some [''foxglove.RawImage''], mappedFromName = None\<rparr>,
      \<lparr>name = ''/robot_description'', schemaName = Some ''std_msgs/String'', convertibleTo = None,
       mappedFromName = None\<rparr>]"

definition test_supported :: "string list" where
  "test_supported = [''foxglove.Grid'', ''foxglove.RawImage'', ''std_msgs/String'']"

text \<open>
  A handler in synchronized mode with the annotation topic \<open>topic_x\<close> visible and \<open>topic_y\<close>
  not: the index has an image and a batch at times 1 and 2 and only a batch at time 3.
\<close>

definition topic_x :: string where
  "topic_x = ''%2Fx:foxglove.ImageAnnotations''"

definition topic_y :: string where
  "topic_y = ''%2Fy:foxglove.ImageAnnotations''"

definition batch_of :: "string \<Rightarrow> nat \<Rightarrow> (unit, unit) NormalizedAnnotations" where
  "batch_of tp s =
     \<lparr>originalMessage = \<lparr>ae_topic = tp, ae_schemaName = ''foxglove.ImageAnnotations'', ae_message = ()\<rparr>,
      annotations = [\<lparr>stamp = \<lparr>sec = s, nsec = 0\<rparr>, ann_rest = ()\<rparr>]\<rparr>"

definition image_at :: "nat \<Rightarrow> unit ImageMessage" where
  "image_at s = \<lparr>img_stamp = \<lparr>sec = s, nsec = 0\<rparr>, img_rest = ()\<rparr>"

definition entry_at :: "nat \<Rightarrow> bool \<Rightarrow> string list \<Rightarrow> Time \<times> (unit, unit, unit) SynchronizationItem" where
  "entry_at s with_image tps =
     (\<lparr>sec = s, nsec = 0\<rparr>,
      \<lparr>item_image = (if with_image then Some (image_at s) else None),
       annotationsByNamespacedTopic = map (\<lambda>tp. (tp, batch_of tp s)) tps\<rparr>)"

definition sync_config :: MessageHandlerConfig where
  "sync_config =
     \<lparr>synchronize = Some True,
      cfg_annotations = Some \<lparr>ann_ref = 0, ann_entries = [(topic_x, Some True), (topic_y, Some False)]\<rparr>,
      calibrationTopic = Some ''/calibration'', imageTopic = Some ''/camera''\<rparr>"

definition sync_handler :: "(unit, nat, unit, unit) MessageHandler" where
  "sync_handler =
     \<lparr>config = sync_config, oldRenderState = None,
      lastReceivedMessages = \<lparr>st_image = None, st_cameraInfo = Some 7, st_annotations = []\<rparr>,
      tree = [entry_at 1 True [topic_x], entry_at 2 True [topic_x], entry_at 3 False [topic_x]],
      notified = []\<rparr>"

text \<open>An annotation message on \<open>/y\<close> whose normalized form is one annotation at time 2.\<close>

definition y_event :: "unit AnnotationEvent" where
  "y_event = \<lparr>ae_topic = ''/y'', ae_schemaName = ''foxglove.ImageAnnotations'', ae_message = ()\<rparr>"

definition y_annotation :: "unit Annotation" where
  "y_annotation = \<lparr>stamp = \<lparr>sec = 2, nsec = 0\<rparr>, ann_rest = ()\<rparr>"

definition y_normalizer :: "unit \<Rightarrow> string \<Rightarrow> unit Annotation list" where
  "y_normalizer msg schema = [y_annotation]"










text \<open>
  A config as \<open>JSON.parse\<close> builds it from a stored layout that has the own key \<open>__proto__\<close>
  among its legacy topics, next to a topic that migrates.
\<close>

definition proto_config :: "(nat, unit) RendererConfig" where
  "proto_config =
     \<lparr>cfg_topics = [(''__proto__'', 5), (''topic_a'', 1)], namespacedTopics = [], cfg_rest = ()\<rparr>"

section \<open>Verified properties\<close>

lemma set_uniq_into: "set (uniq_into acc xs) = set acc \<union> set xs"
  by (induction xs arbitrary: acc) auto

lemma distinct_uniq_into: "distinct acc \<Longrightarrow> distinct (uniq_into acc xs)"
  by (induction xs arbitrary: acc) auto

lemma uniq_into_snoc:
  "uniq_into acc (xs @ [x]) =
     (if x \<in> set (uniq_into acc xs) then uniq_into acc xs else uniq_into acc xs @ [x])"
  by (induction xs arbitrary: acc) auto

lemma uniq_into_append: "uniq_into acc (xs @ ys) = uniq_into (uniq_into acc xs) ys"
  by (induction xs arbitrary: acc) auto

lemma uniq_into_distinct_id: "distinct xs \<Longrightarrow> uniq_into [] xs = xs"
proof (induction xs rule: rev_induct)
  case Nil then show ?case by simp
next
  case (snoc x xs)
  then show ?case by (simp add: uniq_into_snoc)
qed

lemma uniq_into_eq: "distinct acc \<Longrightarrow> uniq_into acc xs = uniq (acc @ xs)"
  by (simp add: uniq_def uniq_into_append uniq_into_distinct_id)

lemma uniq_rev_remdups: "uniq xs = rev (remdups (rev xs))"
proof (induction xs rule: rev_induct)
  case Nil then show ?case by (simp add: uniq_def)
next
  case (snoc x xs)
  then show ?case
    by (simp add: uniq_def uniq_into_snoc set_uniq_into)
qed



lemma js_map_get_set: "js_map_get (js_map_set m k v) k' = (if k' = k then Some v else js_map_get m k')"
  by (simp add: js_map_get_def js_map_set_def update_conv')

lemma js_map_get_Nil: "js_map_get [] k = None"
  by (simp add: js_map_get_def)

lemma merge_step_get:
  "js_map_get (merge_step merged e) k =
     (if k = fst e then Some (uniq ((case js_map_get merged k of Some vs \<Rightarrow> vs | None \<Rightarrow> []) @ [snd e]))
      else js_map_get merged k)"
  by (simp add: merge_step_def js_map_get_set)


lemma uniq_idem: "uniq (uniq xs) = uniq xs"
  by (simp add: uniq_def uniq_into_distinct_id distinct_uniq_into)

lemma uniq_append_uniq: "uniq (uniq xs @ ys) = uniq (xs @ ys)"
  using uniq_idem [of xs] by (simp add: uniq_def uniq_into_append)

lemma old_targets_merge_step:
  "old_targets (merge_step merged e) k =
     (if k = fst e then uniq (old_targets merged k @ [snd e]) else old_targets merged k)"
  by (simp add: old_targets_def merge_step_get)

lemma proposals_Cons:
  "proposals k (e # es) = (if fst e = k then snd e # proposals k es else proposals k es)"
  by (simp add: proposals_def)

lemma merge_fold_get:
  "js_map_get (foldl merge_step merged es) k =
     (if proposals k es = [] then js_map_get merged k
      else Some (uniq (old_targets merged k @ proposals k es)))"
proof (induction es arbitrary: merged)
  case Nil then show ?case by (simp add: proposals_def)
next
  case (Cons e es)
  show ?case
  proof (cases "fst e = k")
    case True
    then show ?thesis
      by (simp add: Cons.IH proposals_Cons old_targets_merge_step uniq_append_uniq merge_step_get
                    old_targets_def)
  next
    case False
    then show ?thesis
      by (simp add: Cons.IH proposals_Cons old_targets_merge_step merge_step_get) 
  qed
qed

lemma proposals_append: "proposals k (xs @ ys) = proposals k xs @ proposals k ys"
  by (simp add: proposals_def)


lemma mergeMappings_fold_get:
  "js_map_get (foldl (\<lambda>merged mp. foldl merge_step merged mp) merged maps) k =
     (if proposals k (concat maps) = [] then js_map_get merged k
      else Some (uniq (old_targets merged k @ proposals k (concat maps))))"
proof (induction maps arbitrary: merged)
  case Nil then show ?case by (simp add: proposals_def)
next
  case (Cons mp maps)
  show ?case
    by (simp add: Cons.IH merge_fold_get proposals_append old_targets_def uniq_append_uniq)
qed

lemma mergeMappings_get:
  "js_map_get (mergeMappings maps) k =
     (if proposals k (concat maps) = [] then None else Some (uniq (proposals k (concat maps))))"
  by (simp add: mergeMappings_def mergeMappings_fold_get old_targets_def js_map_get_Nil)

lemma buildMapping_nonempty:
  "proposals A (concat (run_mappers inputs)) \<noteq> [] \<Longrightarrow>
   buildMapping inputs = Mapping (mergeMappings (run_mappers inputs))"
proof -
  assume "proposals A (concat (run_mappers inputs)) \<noteq> []"
  moreover have "proposals A (concat (run_mappers inputs)) = []" if c: "concat (run_mappers inputs) = []"
    unfolding proposals_def c by simp
  ultimately have "concat (run_mappers inputs) \<noteq> []" by blast
  then have "\<exists>mp \<in> set (run_mappers inputs). mp \<noteq> []" by simp
  then show ?thesis by (simp add: buildMapping_def list_ex_iff)
qed

subsection \<open>C2: merging the mappers' proposals\<close>

text \<open>
  Claim C2. For every list of registered mappers, \<open>mergeMappings\<close> assigns to each source
  topic the de-duplicated union, in mapper-registration order, of the targets the mappers
  propose for it (and has no entry for a source nobody proposes). When the proposals for
  \<open>A\<close> are \<open>B\<close> and then \<open>C\<close>, the mapping that \<open>buildMapping\<close> returns has \<open>A \<mapsto> [B, C]\<close>, and
  \<open>mapMessages\<close> replaces every message on \<open>A\<close> by a copy on \<open>B\<close> followed by a copy on \<open>C\<close>,
  each equal to the original except for the topic field; a message on a topic without
  proposals passes through, and a message on any other mapped topic is copied once per
  merged target.
\<close>

theorem mergeMappings_dedup_union_fan_out:
  "(\<forall>k. js_map_get (mergeMappings (run_mappers inputs)) k =
         (if proposals k (concat (run_mappers inputs)) = [] then None
          else Some (dedup_union (proposals k (concat (run_mappers inputs)))))) \<and>
   (proposals A (concat (run_mappers inputs)) = [B, C] \<and> B \<noteq> C \<longrightarrow>
      lookup_mapping (buildMapping inputs) A = Some [B, C] \<and>
      mapMessages msgs (buildMapping inputs) =
        concat (map (\<lambda>msg. if topic msg = A then [msg\<lparr>topic := B\<rparr>, msg\<lparr>topic := C\<rparr>]
                           else if proposals (topic msg) (concat (run_mappers inputs)) = [] then [msg]
                           else map (\<lambda>t. msg\<lparr>topic := t\<rparr>)
                                  (dedup_union (proposals (topic msg) (concat (run_mappers inputs)))))
                    msgs))"
proof (intro conjI allI impI)
  fix k
  show "js_map_get (mergeMappings (run_mappers inputs)) k =
         (if proposals k (concat (run_mappers inputs)) = [] then None
          else Some (dedup_union (proposals k (concat (run_mappers inputs)))))"
    by (simp add: mergeMappings_get uniq_rev_remdups dedup_union_def)
next
  assume h: "proposals A (concat (run_mappers inputs)) = [B, C] \<and> B \<noteq> C"
  then have bm: "buildMapping inputs = Mapping (mergeMappings (run_mappers inputs))"
    using buildMapping_nonempty [of A inputs] by simp
  from h have h2: "C \<noteq> B" by blast
  show "lookup_mapping (buildMapping inputs) A = Some [B, C]"
    using h h2 by (simp add: bm lookup_mapping_def mergeMappings_get uniq_rev_remdups)
  show "mapMessages msgs (buildMapping inputs) =
        concat (map (\<lambda>msg. if topic msg = A then [msg\<lparr>topic := B\<rparr>, msg\<lparr>topic := C\<rparr>]
                           else if proposals (topic msg) (concat (run_mappers inputs)) = [] then [msg]
                           else map (\<lambda>t. msg\<lparr>topic := t\<rparr>)
                                  (dedup_union (proposals (topic msg) (concat (run_mappers inputs)))))
                    msgs)"
    unfolding bm mapMessages_def TopicMapping.case
    by (intro arg_cong [where f = concat] map_cong refl)
       (use h h2 in \<open>auto simp add: mergeMappings_get uniq_rev_remdups dedup_union_def\<close>)
qed


text \<open>The theorem at two mappers \<open>/a \<mapsto> /b\<close> and \<open>/a \<mapsto> /c\<close> and a batch of two messages.\<close>

theorem mergeMappings_dedup_union_fan_out_witness:
  "lookup_mapping (buildMapping two_mappers) ''/a'' = Some [''/b'', ''/c''] \<and>
   mapMessages [\<lparr>topic = ''/a'', payload = (1::nat)\<rparr>, \<lparr>topic = ''/z'', payload = 2\<rparr>]
               (buildMapping two_mappers) =
     [\<lparr>topic = ''/b'', payload = 1\<rparr>, \<lparr>topic = ''/c'', payload = 1\<rparr>, \<lparr>topic = ''/z'', payload = 2\<rparr>]"
proof -
  have p: "proposals ''/a'' (concat (run_mappers two_mappers)) = [''/b'', ''/c''] \<and> ''/b'' \<noteq> ''/c''"
    by (simp add: proposals_def run_mappers_def two_mappers_def)
  have z: "proposals ''/z'' (concat (run_mappers two_mappers)) = []"
    by (simp add: proposals_def run_mappers_def two_mappers_def)
  show ?thesis
    using mergeMappings_dedup_union_fan_out
            [of two_mappers "''/a''" "''/b''" "''/c''"
                "[\<lparr>topic = ''/a'', payload = (1::nat)\<rparr>, \<lparr>topic = ''/z'', payload = 2\<rparr>]"] p z
    by simp
qed

lemma invert_step_pairs:
  "invert_step inverted e = foldl invert_pair inverted (map (\<lambda>v. (fst e, v)) (snd e))"
  by (simp add: invert_step_def foldl_map invert_pair_def old_targets_def)

lemma invert_fold_pairs:
  "foldl invert_step inverted m = foldl invert_pair inverted (mapping_pairs m)"
  by (induction m arbitrary: inverted) (simp_all add: mapping_pairs_def invert_step_pairs)

lemma invert_pair_get:
  "js_map_get (invert_pair inverted p) v =
     (if v = snd p then Some (old_targets inverted v @ [fst p]) else js_map_get inverted v)"
  by (simp add: invert_pair_def js_map_get_set)

lemma invert_pairs_get:
  "js_map_get (foldl invert_pair inverted ps) v =
     (if filter (\<lambda>p. snd p = v) ps = [] then js_map_get inverted v
      else Some (old_targets inverted v @ map fst (filter (\<lambda>p. snd p = v) ps)))"
proof (induction ps arbitrary: inverted)
  case Nil then show ?case by simp
next
  case (Cons p ps)
  show ?case
    by (simp add: Cons.IH invert_pair_get old_targets_def)
qed

lemma invertMapping_get:
  "lookup_mapping (invertMapping (Mapping m)) v =
     (if sources_of v m = [] then None else Some (sources_of v m))"
  by (simp add: lookup_mapping_def invertMapping_def invert_fold_pairs invert_pairs_get
                sources_of_def old_targets_def js_map_get_Nil)

lemma sources_of_mem:
  "js_map_get m A = Some ts \<Longrightarrow> B \<in> set ts \<Longrightarrow> A \<in> set (sources_of B m)"
proof -
  assume g: "js_map_get m A = Some ts" and b: "B \<in> set ts"
  from g have "(A, ts) \<in> set m" by (simp add: js_map_get_def map_of_SomeD)
  with b have "(A, B) \<in> set (mapping_pairs m)" by (force simp: mapping_pairs_def)
  then show ?thesis by (force simp: sources_of_def)
qed

lemma mapSubscriptions_sources:
  "buildMapping inputs = Mapping m \<Longrightarrow>
   mapSubscriptions inputs subs =
     concat (map (\<lambda>sub. if sources_of (sub_topic sub) m = [] then [sub]
                        else map (\<lambda>t. sub\<lparr>sub_topic := t\<rparr>) (sources_of (sub_topic sub) m)) subs)"
proof -
  assume bm: "buildMapping inputs = Mapping m"
  have g: "js_map_get (foldl invert_step [] m) v =
             (if sources_of v m = [] then None else Some (sources_of v m))" for v
    using invertMapping_get [of m v] by (simp add: lookup_mapping_def invertMapping_def)
  show ?thesis
    unfolding mapSubscriptions_def bm Let_def invertMapping_def
    by (simp, intro arg_cong [where f = concat] map_cong refl) (simp add: g)
qed

subsection \<open>C6: inverting a mapping\<close>

text \<open>
  Claim C6, amended. For every mapping \<open>m\<close>, the inverted mapping sends a target \<open>B\<close> to the
  list of all sources that have \<open>B\<close> among their targets, in the mapping's order (and has no
  entry for a name that is no target); when \<open>m\<close> contains \<open>A \<mapsto> B\<close> that list contains \<open>A\<close>.
  \<open>mapSubscriptions\<close> replaces a subscription to \<open>B\<close> by one copy per source, each equal to
  the request except for its topic, and passes a subscription through when its topic is no
  target. When \<open>A\<close> is the only source of \<open>B\<close>, a request for \<open>B\<close> becomes exactly one request
  for \<open>A\<close>.
\<close>

theorem invertMapping_all_sources:
  "lookup_mapping (invertMapping (Mapping m)) B =
     (if sources_of B m = [] then None else Some (sources_of B m)) \<and>
   (js_map_get m A = Some ts \<and> B \<in> set ts \<longrightarrow> A \<in> set (sources_of B m)) \<and>
   (buildMapping inputs = Mapping m \<longrightarrow>
      mapSubscriptions inputs subs =
        concat (map (\<lambda>sub. if sources_of (sub_topic sub) m = [] then [sub]
                           else map (\<lambda>t. sub\<lparr>sub_topic := t\<rparr>) (sources_of (sub_topic sub) m)) subs)) \<and>
   (buildMapping inputs = Mapping m \<and> sources_of B m = [A] \<and> sub_topic sub = B \<longrightarrow>
      mapSubscriptions inputs [sub] = [sub\<lparr>sub_topic := A\<rparr>])"
  using sources_of_mem [of m A ts B]
  by (simp add: invertMapping_get mapSubscriptions_sources)

lemma two_sources_mapping:
  "buildMapping two_sources = Mapping [(''/a'', [''/b'']), (''/a2'', [''/b''])]"
  by (simp add: buildMapping_def two_sources_def run_mappers_def mergeMappings_def merge_step_def
                js_map_get_def js_map_set_def uniq_def)

text \<open>
  The claim as stated (every mapping containing \<open>A \<mapsto> B\<close> inverts to \<open>B \<mapsto> [A]\<close>) fails when a
  second source is renamed to the same target: the inverse of \<open>/b\<close> lists both sources and
  a subscription to \<open>/b\<close> becomes two subscriptions.
\<close>

theorem invertMapping_single_source_counterexample:
  "lookup_mapping (buildMapping two_sources) ''/a'' = Some [''/b''] \<and>
   lookup_mapping (invertMapping (buildMapping two_sources)) ''/b'' = Some [''/a'', ''/a2''] \<and>
   lookup_mapping (invertMapping (buildMapping two_sources)) ''/b'' \<noteq> Some [''/a''] \<and>
   mapSubscriptions two_sources [\<lparr>sub_topic = ''/b'', sub_rest = ()\<rparr>] =
     [\<lparr>sub_topic = ''/a'', sub_rest = ()\<rparr>, \<lparr>sub_topic = ''/a2'', sub_rest = ()\<rparr>]"
  by (simp add: two_sources_mapping lookup_mapping_def invertMapping_def invert_step_def
                mapSubscriptions_def js_map_get_def js_map_set_def)

text \<open>The theorem at the mapping \<open>/a \<mapsto> [/b, /c]\<close>, \<open>/x \<mapsto> [/y]\<close>.\<close>

theorem invertMapping_all_sources_witness:
  "lookup_mapping (invertMapping (buildMapping two_mappers)) ''/b'' = Some [''/a''] \<and>
   mapSubscriptions two_mappers [\<lparr>sub_topic = ''/b'', sub_rest = (7::nat)\<rparr>] =
     [\<lparr>sub_topic = ''/a'', sub_rest = 7\<rparr>] \<and>
   mapSubscriptions two_mappers [\<lparr>sub_topic = ''/q'', sub_rest = (7::nat)\<rparr>] =
     [\<lparr>sub_topic = ''/q'', sub_rest = 7\<rparr>]"
proof -
  let ?m = "[(''/a'', [''/b'', ''/c'']), (''/x'', [''/y''])]"
  have bm: "buildMapping two_mappers = Mapping ?m"
    by (simp add: buildMapping_def two_mappers_def run_mappers_def mergeMappings_def merge_step_def
                  js_map_get_def js_map_set_def uniq_def)
  have s: "sources_of ''/b'' ?m = [''/a'']" "sources_of ''/q'' ?m = []"
    by (simp_all add: sources_of_def mapping_pairs_def)
  have g: "js_map_get ?m ''/a'' = Some [''/b'', ''/c'']" by (simp add: js_map_get_def)
  show ?thesis
    using invertMapping_all_sources
            [of ?m "''/b''" "''/a''" "[''/b'', ''/c'']" two_mappers
                "[\<lparr>sub_topic = ''/q'', sub_rest = (7::nat)\<rparr>]" "\<lparr>sub_topic = ''/b'', sub_rest = (7::nat)\<rparr>"]
          bm s g
    by simp
qed

subsection \<open>C8: the identity sentinel\<close>

lemma transforms_EmptyMapping:
  "mapTopics tps EmptyMapping = tps"
  "mapMessages msgs EmptyMapping = msgs"
  "mapBlocks blocks EmptyMapping = blocks"
  "mapKeyedTopics keyed EmptyMapping = keyed"
  "mapProgress prog EmptyMapping = prog"
  "invertMapping EmptyMapping = EmptyMapping"
  by (simp_all add: mapTopics_def mapMessages_def mapBlocks_def mapKeyedTopics_def mapProgress_def
                    invertMapping_def)

lemma buildMapping_no_proposals:
  "concat (run_mappers inputs) = [] \<Longrightarrow> buildMapping inputs = EmptyMapping"
  by (simp add: buildMapping_def list_ex_iff)

lemma mapPlayerState_EmptyMapping:
  "buildMapping inputs = EmptyMapping \<Longrightarrow> mapPlayerState inputs playerState = playerState"
  by (simp add: mapPlayerState_def transforms_EmptyMapping option.map_ident)

lemma buildMapping_sentinel_iff:
  "buildMapping inputs = EmptyMapping \<longleftrightarrow> concat (run_mappers inputs) = []"
  by (auto simp: buildMapping_def list_ex_iff Let_def)

lemma returned_Argument_iff:
  "mapTopics_returned tps mapping = Argument \<longleftrightarrow> mapping = EmptyMapping"
  "mapMessages_returned msgs mapping = Argument \<longleftrightarrow> mapping = EmptyMapping"
  "mapBlocks_returned blocks mapping = Argument \<longleftrightarrow> mapping = EmptyMapping"
  "mapKeyedTopics_returned keyed mapping = Argument \<longleftrightarrow> mapping = EmptyMapping"
  "mapProgress_returned prog mapping = Argument \<longleftrightarrow> mapping = EmptyMapping \<or> messageCache prog = None"
  by (simp_all add: mapTopics_returned_def mapMessages_returned_def mapBlocks_returned_def
                    mapKeyedTopics_returned_def mapProgress_returned_def
               split: TopicMapping.splits)

lemma invertMapping_sentinel_iff: "invertMapping mapping = EmptyMapping \<longleftrightarrow> mapping = EmptyMapping"
  by (simp add: invertMapping_def split: TopicMapping.splits)

lemma mapSubscriptions_returned_Argument_iff:
  "mapSubscriptions_returned inputs subs = Argument \<longleftrightarrow> buildMapping inputs = EmptyMapping"
proof (cases "buildMapping inputs")
  case EmptyMapping
  then show ?thesis by (simp add: mapSubscriptions_returned_def)
next
  case (Mapping m)
  then have "invertMapping (buildMapping inputs) \<noteq> EmptyMapping"
    by (simp add: invertMapping_sentinel_iff)
  then show ?thesis
    using Mapping by (simp add: mapSubscriptions_returned_def split: TopicMapping.splits)
qed

lemma returned_value_transforms:
  "returned_value tps (mapTopics_returned tps mapping) = mapTopics tps mapping"
  "returned_value msgs (mapMessages_returned msgs mapping) = mapMessages msgs mapping"
  "returned_value blocks (mapBlocks_returned blocks mapping) = mapBlocks blocks mapping"
  "returned_value keyed (mapKeyedTopics_returned keyed mapping) = mapKeyedTopics keyed mapping"
  by (simp_all add: returned_value_def mapTopics_returned_def mapTopics_def mapMessages_returned_def
                    mapMessages_def mapBlocks_returned_def mapBlocks_def mapKeyedTopics_returned_def
                    mapKeyedTopics_def
               split: TopicMapping.splits)

lemma returned_value_mapProgress:
  "returned_value prog (mapProgress_returned prog mapping) = mapProgress prog mapping"
  by (simp add: returned_value_transforms(3) mapProgress_returned_def mapProgress_def)
     (simp add: returned_value_def)

lemma returned_value_mapSubscriptions:
  "returned_value subs (mapSubscriptions_returned inputs subs) = mapSubscriptions inputs subs"
  by (simp add: returned_value_def mapSubscriptions_returned_def mapSubscriptions_def Let_def
           split: TopicMapping.splits)

text \<open>
  Claim C8. \<open>buildMapping\<close> returns the sentinel \<open>EmptyMapping\<close> exactly when no mapper
  proposes a rename (every mapper's output has no entries). In that case \<open>mapTopics\<close>,
  \<open>mapMessages\<close>, \<open>mapBlocks\<close>, \<open>mapKeyedTopics\<close> and \<open>mapProgress\<close>, applied with the mapping that
  was built, and \<open>mapSubscriptions\<close> each return the very object they were given, not a copy
  of it; and the player state that \<open>mapPlayerState\<close> builds has the content of the one it
  was given.

  Returning the argument itself is particular to the sentinel: \<open>mapTopics\<close>, \<open>mapMessages\<close>,
  \<open>mapBlocks\<close> and \<open>mapKeyedTopics\<close> return it for no other mapping (a mapping with no
  entries that is not the sentinel gives a new list with the same content),
  \<open>mapProgress\<close> besides only when there is no message cache, and \<open>mapSubscriptions\<close> for no
  inputs whose mapping is not the sentinel. In every case the content of the returned
  object is what the transform computes, and inverting the sentinel gives the sentinel.
\<close>

theorem buildMapping_identity_sentinel:
  "(concat (run_mappers inputs) = [] \<longrightarrow>
      buildMapping inputs = EmptyMapping \<and>
      mapTopics_returned tps (buildMapping inputs) = Argument \<and>
      mapMessages_returned msgs (buildMapping inputs) = Argument \<and>
      mapBlocks_returned blocks (buildMapping inputs) = Argument \<and>
      mapKeyedTopics_returned keyed (buildMapping inputs) = Argument \<and>
      mapProgress_returned prog (buildMapping inputs) = Argument \<and>
      mapSubscriptions_returned inputs subs = Argument \<and>
      mapSubscriptions inputs subs = subs \<and>
      mapPlayerState inputs playerState = playerState) \<and>
   (buildMapping inputs = EmptyMapping \<longleftrightarrow> concat (run_mappers inputs) = []) \<and>
   (mapTopics_returned tps mapping = Argument \<longleftrightarrow> mapping = EmptyMapping) \<and>
   (mapMessages_returned msgs mapping = Argument \<longleftrightarrow> mapping = EmptyMapping) \<and>
   (mapBlocks_returned blocks mapping = Argument \<longleftrightarrow> mapping = EmptyMapping) \<and>
   (mapKeyedTopics_returned keyed mapping = Argument \<longleftrightarrow> mapping = EmptyMapping) \<and>
   (mapProgress_returned prog mapping = Argument \<longleftrightarrow>
      mapping = EmptyMapping \<or> messageCache prog = None) \<and>
   (mapSubscriptions_returned inputs subs = Argument \<longleftrightarrow> buildMapping inputs = EmptyMapping) \<and>
   returned_value tps (mapTopics_returned tps mapping) = mapTopics tps mapping \<and>
   returned_value msgs (mapMessages_returned msgs mapping) = mapMessages msgs mapping \<and>
   returned_value blocks (mapBlocks_returned blocks mapping) = mapBlocks blocks mapping \<and>
   returned_value keyed (mapKeyedTopics_returned keyed mapping) = mapKeyedTopics keyed mapping \<and>
   returned_value prog (mapProgress_returned prog mapping) = mapProgress prog mapping \<and>
   returned_value subs (mapSubscriptions_returned inputs subs) = mapSubscriptions inputs subs \<and>
   mapTopics tps EmptyMapping = tps \<and>
   mapMessages msgs EmptyMapping = msgs \<and>
   mapBlocks blocks EmptyMapping = blocks \<and>
   mapKeyedTopics keyed EmptyMapping = keyed \<and>
   mapProgress prog EmptyMapping = prog \<and>
   invertMapping EmptyMapping = EmptyMapping"
proof -
  have s: "buildMapping inputs = EmptyMapping \<and>
        mapTopics_returned tps (buildMapping inputs) = Argument \<and>
        mapMessages_returned msgs (buildMapping inputs) = Argument \<and>
        mapBlocks_returned blocks (buildMapping inputs) = Argument \<and>
        mapKeyedTopics_returned keyed (buildMapping inputs) = Argument \<and>
        mapProgress_returned prog (buildMapping inputs) = Argument \<and>
        mapSubscriptions_returned inputs subs = Argument \<and>
        mapSubscriptions inputs subs = subs \<and>
        mapPlayerState inputs playerState = playerState"
    if c: "concat (run_mappers inputs) = []"
  proof -
    have b: "buildMapping inputs = EmptyMapping" by (rule buildMapping_no_proposals [OF c])
    show ?thesis
      unfolding returned_Argument_iff mapSubscriptions_returned_Argument_iff
      using b by (simp add: mapPlayerState_EmptyMapping mapSubscriptions_def)
  qed
  show ?thesis
    unfolding returned_Argument_iff mapSubscriptions_returned_Argument_iff returned_value_transforms
      returned_value_mapProgress returned_value_mapSubscriptions transforms_EmptyMapping
    using s
    unfolding returned_Argument_iff mapSubscriptions_returned_Argument_iff
    by (simp add: buildMapping_sentinel_iff)
qed

text \<open>
  The theorem at one registered mapper that proposes nothing, and at a mapping with no
  entries that is not the sentinel.
\<close>

theorem buildMapping_identity_sentinel_witness:
  "buildMapping idle_mapper = EmptyMapping \<and>
   mapTopics_returned one_topic (buildMapping idle_mapper) = Argument \<and>
   mapSubscriptions_returned idle_mapper one_request = Argument \<and>
   mapSubscriptions idle_mapper one_request = one_request \<and>
   mapTopics_returned one_topic (Mapping []) \<noteq> Argument \<and>
   returned_value one_topic (mapTopics_returned one_topic (Mapping [])) = one_topic"
proof -
  have c: "concat (run_mappers idle_mapper) = []"
    by (simp add: run_mappers_def idle_mapper_def)
  have v: "mapTopics one_topic (Mapping []) = one_topic"
    by (simp add: mapTopics_def one_topic_def js_map_get_def)
  note t = buildMapping_identity_sentinel
             [where inputs = idle_mapper and tps = one_topic and subs = one_request
                and mapping = "Mapping []" and msgs = "[] :: unit MessageEvent list"
                and blocks = "[] :: unit MessageBlock option list" and keyed = "[]"
                and prog = "\<lparr>messageCache = None\<rparr> :: unit Progress"
                and playerState = "\<lparr>activeData = None, progress = \<lparr>messageCache = None\<rparr>,
                                     ps_rest = ()\<rparr> :: (unit, unit) PlayerState"]
  note s = t [THEN conjunct1, THEN mp, OF c]
  from s have a: "buildMapping idle_mapper = EmptyMapping"
    and b: "mapTopics_returned one_topic (buildMapping idle_mapper) = Argument"
    and d: "mapSubscriptions_returned idle_mapper one_request = Argument"
    and e: "mapSubscriptions idle_mapper one_request = one_request"
    by blast+
  from t have f: "mapTopics_returned one_topic (Mapping []) \<noteq> Argument" by simp
  from t v have g: "returned_value one_topic (mapTopics_returned one_topic (Mapping [])) = one_topic"
    by simp
  from a b d e f g show ?thesis by blast
qed

subsection \<open>C10: subscriptions to several targets of one source\<close>

text \<open>
  Claim C10. When the mapping sends \<open>A\<close> to targets that include \<open>B\<close> and \<open>C\<close>, the subscription
  transform applied to a request for \<open>B\<close> followed by a request for \<open>C\<close> forwards one payload
  per source of \<open>B\<close> followed by one payload per source of \<open>C\<close>; \<open>A\<close> is among both. When
  \<open>A\<close> is the only source of \<open>B\<close> and of \<open>C\<close>, exactly two payloads are forwarded and both
  name \<open>A\<close>: they are not merged into one.
\<close>

theorem mapSubscriptions_fan_out_not_coalesced:
  "buildMapping inputs = Mapping m \<and> js_map_get m A = Some ts \<and> B \<in> set ts \<and> C \<in> set ts \<and>
   sub_topic sB = B \<and> sub_topic sC = C \<longrightarrow>
     mapSubscriptions inputs [sB, sC] =
       map (\<lambda>t. sB\<lparr>sub_topic := t\<rparr>) (sources_of B m) @ map (\<lambda>t. sC\<lparr>sub_topic := t\<rparr>) (sources_of C m) \<and>
     A \<in> set (sources_of B m) \<and> A \<in> set (sources_of C m) \<and>
     (sources_of B m = [A] \<and> sources_of C m = [A] \<longrightarrow>
        mapSubscriptions inputs [sB, sC] = [sB\<lparr>sub_topic := A\<rparr>, sC\<lparr>sub_topic := A\<rparr>])"
proof (intro impI)
  assume h: "buildMapping inputs = Mapping m \<and> js_map_get m A = Some ts \<and> B \<in> set ts \<and> C \<in> set ts \<and>
             sub_topic sB = B \<and> sub_topic sC = C"
  then have b: "A \<in> set (sources_of B m)" and c: "A \<in> set (sources_of C m)"
    using sources_of_mem by blast+
  then have ne: "sources_of B m \<noteq> []" "sources_of C m \<noteq> []" by auto
  have ms: "mapSubscriptions inputs [sB, sC] =
       map (\<lambda>t. sB\<lparr>sub_topic := t\<rparr>) (sources_of B m) @ map (\<lambda>t. sC\<lparr>sub_topic := t\<rparr>) (sources_of C m)"
    using h ne by (simp add: mapSubscriptions_sources [of inputs m])
  show "mapSubscriptions inputs [sB, sC] =
       map (\<lambda>t. sB\<lparr>sub_topic := t\<rparr>) (sources_of B m) @ map (\<lambda>t. sC\<lparr>sub_topic := t\<rparr>) (sources_of C m) \<and>
     A \<in> set (sources_of B m) \<and> A \<in> set (sources_of C m) \<and>
     (sources_of B m = [A] \<and> sources_of C m = [A] \<longrightarrow>
        mapSubscriptions inputs [sB, sC] = [sB\<lparr>sub_topic := A\<rparr>, sC\<lparr>sub_topic := A\<rparr>])"
    using ms b c by simp
qed

text \<open>The theorem at the merged mapping \<open>/a \<mapsto> [/b, /c]\<close> of two mappers.\<close>

theorem mapSubscriptions_fan_out_not_coalesced_witness:
  "lookup_mapping (buildMapping two_mappers) ''/a'' = Some [''/b'', ''/c''] \<and>
   mapSubscriptions two_mappers
     [\<lparr>sub_topic = ''/b'', sub_rest = (1::nat)\<rparr>, \<lparr>sub_topic = ''/c'', sub_rest = 2\<rparr>] =
     [\<lparr>sub_topic = ''/a'', sub_rest = 1\<rparr>, \<lparr>sub_topic = ''/a'', sub_rest = 2\<rparr>]"
proof -
  let ?m = "[(''/a'', [''/b'', ''/c'']), (''/x'', [''/y''])]"
  have bm: "buildMapping two_mappers = Mapping ?m"
    by (simp add: buildMapping_def two_mappers_def run_mappers_def mergeMappings_def merge_step_def
                  js_map_get_def js_map_set_def uniq_def)
  have s: "sources_of ''/b'' ?m = [''/a'']" "sources_of ''/c'' ?m = [''/a'']"
    by (simp_all add: sources_of_def mapping_pairs_def)
  have g: "js_map_get ?m ''/a'' = Some [''/b'', ''/c'']" by (simp add: js_map_get_def)
  show ?thesis
    using mapSubscriptions_fan_out_not_coalesced
            [of two_mappers ?m "''/a''" "[''/b'', ''/c'']" "''/b''" "''/c''"
                "\<lparr>sub_topic = ''/b'', sub_rest = (1::nat)\<rparr>" "\<lparr>sub_topic = ''/c'', sub_rest = (2::nat)\<rparr>"]
          bm s g
    by (simp add: lookup_mapping_def)
qed

subsection \<open>C3: pending subscriptions of the topic mapping player\<close>







subsection \<open>C5: namespaced topics\<close>

lemma hex_value_digit_all: "list_all (\<lambda>n. hex_value (hex_digit n) = Some n) [0..<16]"
  by (simp add: hex_value_def hex_digit_def upt_rec)

lemma hex_value_digit: "n < 16 \<Longrightarrow> hex_value (hex_digit n) = Some n"
  using hex_value_digit_all by (simp add: list_all_iff)

lemma hex_digit_not_special_all:
  "list_all (\<lambda>n. hex_digit n \<noteq> CHR '':'') [0..<16]"
  by (simp add: hex_digit_def upt_rec)

lemma hex_digit_not_colon: "n < 16 \<Longrightarrow> hex_digit n \<noteq> CHR '':''"
  using hex_digit_not_special_all by (simp add: list_all_iff)

lemma of_char_less_256: "(of_char c :: nat) < 256"
proof -
  have "(of_char (char_of (of_char c :: nat)) :: nat) = of_char c mod 256" by (rule of_char_of)
  then have "(of_char c :: nat) = of_char c mod 256" by simp
  then show ?thesis by (metis mod_less_divisor zero_less_numeral)
qed

lemma char_of_div_mod: "char_of (16 * ((of_char c :: nat) div 16) + of_char c mod 16) = c"
  by simp

lemma unreserved_not_special: "uri_unreserved c \<Longrightarrow> c \<noteq> CHR ''%'' \<and> c \<noteq> CHR '':''"
  by (auto simp: uri_unreserved_def)

lemma percent_decode_encode_byte:
  "percent_decode (encode_byte c @ rest) = map_option ((#) c) (percent_decode rest)"
proof (cases "uri_unreserved c")
  case True
  then show ?thesis using unreserved_not_special [of c] by (simp add: encode_byte_def)
next
  case False
  have d: "(of_char c :: nat) div 16 < 16" using of_char_less_256 [of c] by presburger
  have m: "(of_char c :: nat) mod 16 < 16" by simp
  show ?thesis
    using False by (simp add: encode_byte_def hex_value_digit [OF d] hex_value_digit [OF m])
qed

lemma percent_decode_encode: "percent_decode (concat (map encode_byte s)) = Some s"
  by (induction s) (simp_all add: percent_decode_encode_byte)

lemma encode_byte_no_colon: "CHR '':'' \<notin> set (encode_byte c)"
proof (cases "uri_unreserved c")
  case True
  then show ?thesis using unreserved_not_special [of c] by (auto simp: encode_byte_def)
next
  case False
  have d: "(of_char c :: nat) div 16 < 16" using of_char_less_256 [of c] by presburger
  have m: "(of_char c :: nat) mod 16 < 16" by simp
  show ?thesis
    using False hex_digit_not_colon [OF d] hex_digit_not_colon [OF m]
    by (auto simp: encode_byte_def)
qed

lemma encode_no_colon: "CHR '':'' \<notin> set (concat (map encode_byte s))"
  using encode_byte_no_colon by auto

lemma split_colon_first_encode:
  "split_colon_first (concat (map encode_byte s) @ CHR '':'' # r) = concat (map encode_byte s)"
proof -
  have "x \<noteq> CHR '':''" if "x \<in> set (concat (map encode_byte s))" for x
    using that encode_no_colon [of s] by blast
  then have "takeWhile (\<lambda>c. c \<noteq> CHR '':'') (concat (map encode_byte s) @ CHR '':'' # r) =
             concat (map encode_byte s) @ takeWhile (\<lambda>c. c \<noteq> CHR '':'') (CHR '':'' # r)"
    by (rule takeWhile_append2)
  then show ?thesis by (simp add: split_colon_first_def)
qed

lemma encode_inj: "concat (map encode_byte s) = concat (map encode_byte s') \<Longrightarrow> s = s'"
  by (metis option.inject percent_decode_encode)

lemma namespaceTopic_Some:
  "namespaceTopic tp schema = Some ns \<longleftrightarrow>
     well_formed tp \<and> well_formed schema \<and>
     ns = concat (map encode_byte tp) @ '':'' @ concat (map encode_byte schema)"
  by (auto simp: namespaceTopic_def encodeURIComponent_def)

lemma unnamespacetopic_namespaceTopic:
  "well_formed tp \<Longrightarrow> well_formed schema \<Longrightarrow>
   \<exists>ns. namespaceTopic tp schema = Some ns \<and> unnamespacetopic ns = Some tp"
  by (simp add: namespaceTopic_Some unnamespacetopic_def split_colon_first_encode
                decodeURIComponent_def percent_decode_encode)

lemma namespaceTopic_inj:
  assumes "namespaceTopic t1 s1 = Some ns" "namespaceTopic t2 s2 = Some ns"
  shows "t1 = t2 \<and> s1 = s2"
proof -
  let ?e = "\<lambda>s. concat (map encode_byte s)"
  from assms have eq: "?e t1 @ '':'' @ ?e s1 = ?e t2 @ '':'' @ ?e s2"
    by (simp add: namespaceTopic_Some)
  then have eq: "?e t1 @ CHR '':'' # ?e s1 = ?e t2 @ CHR '':'' # ?e s2" by simp
  have "split_colon_first (?e t1 @ CHR '':'' # ?e s1) = split_colon_first (?e t2 @ CHR '':'' # ?e s2)"
    using eq by simp
  then have t: "?e t1 = ?e t2" by (simp only: split_colon_first_encode)
  with eq have "?e s1 = ?e s2" by simp
  with t show ?thesis using encode_inj by blast
qed

text \<open>
  Claim C5. For every topic and schema that are well-formed strings (the strings on which
  \<open>encodeURIComponent\<close> does not throw), \<open>namespaceTopic\<close> returns a namespaced topic and
  \<open>unnamespacetopic\<close> of it returns the original topic; and two pairs of well-formed strings
  with the same namespaced topic are the same pair.
\<close>

theorem namespaceTopic_roundtrip_injective:
  "(well_formed tp \<and> well_formed schema \<longrightarrow>
      (\<exists>ns. namespaceTopic tp schema = Some ns \<and> unnamespacetopic ns = Some tp)) \<and>
   (well_formed t1 \<and> well_formed s1 \<and> well_formed t2 \<and> well_formed s2 \<and>
    namespaceTopic t1 s1 = namespaceTopic t2 s2 \<longrightarrow> t1 = t2 \<and> s1 = s2)"
proof (intro conjI impI)
  assume "well_formed tp \<and> well_formed schema"
  then show "\<exists>ns. namespaceTopic tp schema = Some ns \<and> unnamespacetopic ns = Some tp"
    using unnamespacetopic_namespaceTopic by blast
next
  assume h: "well_formed t1 \<and> well_formed s1 \<and> well_formed t2 \<and> well_formed s2 \<and>
             namespaceTopic t1 s1 = namespaceTopic t2 s2"
  then obtain ns where "namespaceTopic t1 s1 = Some ns"
    using unnamespacetopic_namespaceTopic by blast
  with h have "namespaceTopic t1 s1 = Some ns" "namespaceTopic t2 s2 = Some ns" by simp_all
  then have "t1 = t2 \<and> s1 = s2" by (rule namespaceTopic_inj)
  then show "t1 = t2" "s1 = s2" by simp_all
qed

text \<open>
  The theorem at a topic that contains a colon, a space and a percent sign, and at two
  pairs that differ only in where the colon stands.
\<close>

theorem namespaceTopic_roundtrip_injective_witness:
  "namespaceTopic ''/robot: desc%'' ''std_msgs/String'' = Some ''%2Frobot%3A%20desc%25:std_msgs%2FString'' \<and>
   unnamespacetopic ''%2Frobot%3A%20desc%25:std_msgs%2FString'' = Some ''/robot: desc%'' \<and>
   namespaceTopic ''a:b'' ''c'' \<noteq> namespaceTopic ''a'' ''b:c''"
proof -
  have w: "well_formed ''/robot: desc%''" "well_formed ''std_msgs/String''"
          "well_formed ''a:b''" "well_formed ''c''" "well_formed ''a''" "well_formed ''b:c''"
    by code_simp+
  have n: "namespaceTopic ''/robot: desc%'' ''std_msgs/String'' = Some ''%2Frobot%3A%20desc%25:std_msgs%2FString''"
    by code_simp
  from namespaceTopic_roundtrip_injective
         [of "''/robot: desc%''" "''std_msgs/String''" "''a:b''" "''c''" "''a''" "''b:c''"] w n
  show ?thesis by auto
qed

subsection \<open>C4: migrating the legacy topic settings\<close>

lemma namespaceTopic_ns_key:
  "well_formed tp \<Longrightarrow> well_formed schema \<Longrightarrow> namespaceTopic tp schema = Some (ns_key tp schema)"
  by (simp add: namespaceTopic_Some ns_key_def)

lemma ns_key_inj: "ns_key t1 s1 = ns_key t2 s2 \<Longrightarrow> t1 = t2 \<and> s1 = s2"
proof -
  let ?e = "\<lambda>s. concat (map encode_byte s)"
  assume eq: "ns_key t1 s1 = ns_key t2 s2"
  then have "split_colon_first (?e t1 @ CHR '':'' # ?e s1) = split_colon_first (?e t2 @ CHR '':'' # ?e s2)"
    by (simp add: ns_key_def)
  then have t: "?e t1 = ?e t2" by (simp only: split_colon_first_encode)
  with eq have "?e s1 = ?e s2" by (simp add: ns_key_def)
  with t show ?thesis using encode_inj by blast
qed

lemma moves_under_well_formed:
  assumes wf: "list_all topic_well_formed tps" and m: "moves_under supported tps k = Some sch"
  shows "well_formed k \<and> well_formed sch"
proof -
  from m obtain tp where f: "List.find (\<lambda>top. name top = k) tps = Some tp"
    and t: "target_schema supported tp = Some sch"
    by (auto simp: moves_under_def split: option.splits)
  from f have n: "name tp = k" and mem: "tp \<in> set tps"
    by (auto simp: find_Some_iff)
  from wf mem have w: "topic_well_formed tp" by (simp add: list_all_iff)
  have c: "well_formed sch" if "first_convertible supported tp = Some sch"
    using that w
    by (auto simp: first_convertible_def topic_well_formed_def find_Some_iff list_all_iff
             split: option.splits)
  from t have "well_formed sch"
    using w c by (auto simp: target_schema_def topic_well_formed_def split: option.splits if_splits)
  with w n show ?thesis by (simp add: topic_well_formed_def)
qed

lemma first_convertible_supported:
  "first_convertible supported tp = Some sch \<Longrightarrow> sch \<in> set supported"
  by (auto simp: first_convertible_def find_Some_iff split: option.splits)

lemma ns_key_has_colon: "CHR '':'' \<in> set (ns_key k sch)"
  by (simp add: ns_key_def)

lemma ns_key_not_proto: "ns_key k sch \<noteq> ''__proto__''"
proof
  assume "ns_key k sch = ''__proto__''"
  then have "CHR '':'' \<in> set ''__proto__''" using ns_key_has_colon [of k sch] by simp
  then show False by simp
qed

lemma js_object_assign_ns_key:
  "js_object_assign m (ns_key k sch) v = js_map_set m (ns_key k sch) v"
  by (simp add: js_object_assign_def ns_key_not_proto)

lemma migrate_entry_spec:
  assumes wf: "list_all topic_well_formed tps" and ne: "[] \<notin> set supported"
  shows "migrate_entry supported tps (un, nw) e =
           Some (case moves_under supported tps (fst e) of
                   Some sch \<Rightarrow> (un, js_map_set nw (ns_key (fst e) sch) (snd e))
                 | None \<Rightarrow> (js_object_assign un (fst e) (snd e), nw))"
proof (cases "List.find (\<lambda>top. name top = fst e) tps")
  case None
  then show ?thesis by (simp add: migrate_entry_def moves_under_def)
next
  case (Some tp)
  then have n: "name tp = fst e" by (auto simp: find_Some_iff)
  have mu: "moves_under supported tps (fst e) = target_schema supported tp"
    using Some by (simp add: moves_under_def)
  have ns: "namespaceTopic (name tp) sch = Some (ns_key (fst e) sch)"
    if "target_schema supported tp = Some sch" for sch
    using moves_under_well_formed [OF wf, of supported "fst e" sch] that mu n
    by (simp add: namespaceTopic_ns_key)
  show ?thesis
  proof (cases "case schemaName tp of Some sn \<Rightarrow> sn \<noteq> [] \<and> sn \<in> set supported | None \<Rightarrow> False")
    case True
    then obtain sn where sn: "schemaName tp = Some sn" "sn \<in> set supported"
      by (auto split: option.splits)
    then have ts: "target_schema supported tp = Some sn" by (simp add: target_schema_def)
    show ?thesis
      using True sn ns [OF ts] Some by (simp add: migrate_entry_def mu ts js_object_assign_ns_key)
  next
    case False
    then have ts: "target_schema supported tp = first_convertible supported tp"
      using ne by (auto simp: target_schema_def split: option.splits)
    show ?thesis
    proof (cases "first_convertible supported tp")
      case None
      then show ?thesis
        using False Some by (simp add: migrate_entry_def mu ts first_convertible_def)
    next
      case (Some sch)
      then have "sch \<noteq> []" using first_convertible_supported ne by metis
      then show ?thesis
        using False \<open>List.find (\<lambda>top. name top = fst e) tps = Some tp\<close> Some ns [of sch] ts
        by (simp add: migrate_entry_def mu first_convertible_def js_object_assign_ns_key)
    qed
  qed
qed

lemma js_map_assign_Nil: "js_map_assign m [] = m"
  by (simp add: js_map_assign_def)

lemma js_map_assign_Cons: "js_map_assign m (e # es) = js_map_assign (js_map_set m (fst e) (snd e)) es"
  by (simp add: js_map_assign_def)

lemma js_map_set_not_Nil: "js_map_set m k v \<noteq> []"
  by (cases m) (simp_all add: js_map_set_def)

lemma js_map_assign_empty_iff: "js_map_assign m es = [] \<longleftrightarrow> m = [] \<and> es = []"
  by (induction es arbitrary: m) (simp_all add: js_map_assign_Nil js_map_assign_Cons js_map_set_not_Nil)

lemma js_map_assign_get:
  "js_map_get (js_map_assign m es) k =
     (case map_of (rev es) k of Some v \<Rightarrow> Some v | None \<Rightarrow> js_map_get m k)"
proof (induction es arbitrary: m)
  case Nil
  then show ?case by (simp add: js_map_assign_Nil)
next
  case (Cons e es)
  show ?case
    by (cases e) (simp add: js_map_assign_Cons Cons.IH js_map_get_set map_add_def split: option.splits)
qed

lemma migrate_entries_spec:
  assumes wf: "list_all topic_well_formed tps" and ne: "[] \<notin> set supported"
  shows "migrate_entries supported tps (un, nw) es =
           Some (js_map_assign un (kept_entries supported tps es),
                 js_map_assign nw (moved_entries supported tps es))"
proof (induction es arbitrary: un nw)
  case Nil
  then show ?case by (simp add: kept_entries_def moved_entries_def js_map_assign_Nil)
next
  case (Cons e es)
  show ?case
  proof (cases "moves_under supported tps (fst e)")
    case None
    then show ?thesis
      by (simp add: migrate_entry_spec [OF wf ne] Cons.IH kept_entries_def moved_entries_def
                    js_map_assign_Cons js_object_assign_def)
  next
    case (Some sch)
    then show ?thesis
      by (simp add: migrate_entry_spec [OF wf ne] Cons.IH kept_entries_def moved_entries_def
                    js_map_assign_Cons)
  qed
qed

lemma moved_entries_empty_iff:
  "moved_entries supported tps es = [] \<longleftrightarrow> list_all (\<lambda>e. moves_under supported tps (fst e) = None) es"
  by (induction es) (auto simp: moved_entries_def split: option.splits)

lemma moved_entries_keys:
  "nk \<in> fst ` set (moved_entries supported tps es) \<Longrightarrow>
   \<exists>k sch. k \<in> fst ` set es \<and> moves_under supported tps k = Some sch \<and> nk = ns_key k sch"
  by (auto simp: moved_entries_def split: option.splits) force

lemma moved_entries_Cons:
  "moved_entries supported tps (e # es) =
     (case moves_under supported tps (fst e) of Some sch \<Rightarrow> [(ns_key (fst e) sch, snd e)] | None \<Rightarrow> [])
     @ moved_entries supported tps es"
  by (simp add: moved_entries_def)

lemma moved_entries_fresh:
  assumes "fst e \<notin> set (map fst es)"
  shows "ns_key (fst e) sch \<notin> fst ` set (moved_entries supported tps es)"
proof
  assume "ns_key (fst e) sch \<in> fst ` set (moved_entries supported tps es)"
  from moved_entries_keys [OF this]
  obtain k sch' where k: "k \<in> fst ` set es" and eq: "ns_key (fst e) sch = ns_key k sch'"
    by blast
  from ns_key_inj [OF eq] have "fst e = k" by simp
  with k have "fst e \<in> set (map fst es)" by simp
  with assms show False by simp
qed

lemma moved_entries_distinct:
  "distinct (map fst es) \<Longrightarrow> distinct (map fst (moved_entries supported tps es))"
proof (induction es)
  case Nil
  then show ?case by (simp add: moved_entries_def)
next
  case (Cons e es)
  from Cons.prems have f: "fst e \<notin> set (map fst es)" and d: "distinct (map fst es)" by simp_all
  have ih: "distinct (map fst (moved_entries supported tps es))" by (rule Cons.IH [OF d])
  show ?case
  proof (cases "moves_under supported tps (fst e)")
    case None
    then show ?thesis by (simp add: moved_entries_Cons ih)
  next
    case (Some sch)
    then show ?thesis
      using moved_entries_fresh [OF f, of sch supported tps] ih
      by (simp add: moved_entries_Cons)
  qed
qed

lemma moved_entries_mem:
  "(k, c) \<in> set es \<Longrightarrow> moves_under supported tps k = Some sch \<Longrightarrow>
   (ns_key k sch, c) \<in> set (moved_entries supported tps es)"
  by (auto simp: moved_entries_def split: option.splits) force

lemma map_of_rev_distinct: "distinct (map fst es) \<Longrightarrow> map_of (rev es) = map_of es"
proof (induction es)
  case Nil
  then show ?case by simp
next
  case (Cons e es)
  then have "fst e \<notin> dom (map_of es)" by (simp add: dom_map_of_conv_image_fst)
  then have "map_of es (fst e) = None" by blast
  then show ?case
    using Cons by (cases e) (simp add: map_add_def fun_eq_iff split: option.splits)
qed

lemma kept_entries_map_of:
  "map_of (kept_entries supported tps es) k =
     (if moves_under supported tps k = None \<and> k \<noteq> ''__proto__'' then map_of es k else None)"
  by (induction es) (auto simp: kept_entries_def)

lemma kept_entries_distinct: "distinct (map fst es) \<Longrightarrow> distinct (map fst (kept_entries supported tps es))"
  by (simp add: kept_entries_def distinct_map_filter)

lemma js_map_assign_distinct:
  "distinct (map fst m) \<Longrightarrow> distinct (map fst (js_map_assign m es))"
  by (induction es arbitrary: m) (simp_all add: js_map_assign_Nil js_map_assign_Cons js_map_set_def distinct_update)

lemma js_map_assign_fresh_get:
  "distinct (map fst es) \<Longrightarrow> js_map_get (js_map_assign [] es) k = map_of es k"
  by (simp add: js_map_assign_get map_of_rev_distinct js_map_get_Nil split: option.splits)

lemma js_map_assign_twice_get:
  assumes "distinct (map fst es)"
  shows "js_map_get (js_map_assign m (js_map_assign [] es)) k =
           (case map_of es k of Some v \<Rightarrow> Some v | None \<Rightarrow> js_map_get m k)"
proof -
  have d: "distinct (map fst (js_map_assign [] es))" by (rule js_map_assign_distinct) simp
  have "map_of (rev (js_map_assign [] es)) k = map_of (js_map_assign [] es) k"
    by (simp add: map_of_rev_distinct [OF d])
  also have "\<dots> = map_of es k"
    using js_map_assign_fresh_get [OF assms, of k] by (simp add: js_map_get_def)
  finally show ?thesis by (simp add: js_map_assign_get)
qed

lemma migrateConfigTopicsNodes_result:
  assumes wf: "list_all topic_well_formed tps" and ne: "[] \<notin> set supported"
  shows "migrateConfigTopicsNodes supported oldConfig tps =
           Some (if tps = [] \<or> moved_entries supported tps (cfg_topics oldConfig) = [] then Unchanged
                 else Rebuilt (oldConfig
                   \<lparr>namespacedTopics :=
                      js_map_assign (namespacedTopics oldConfig)
                        (js_map_assign [] (moved_entries supported tps (cfg_topics oldConfig))),
                    cfg_topics := js_map_assign [] (kept_entries supported tps (cfg_topics oldConfig))\<rparr>))"
  by (simp add: migrateConfigTopicsNodes_def migrate_entries_spec [OF wf ne] js_map_assign_empty_iff)

lemma moved_entries_lookup:
  assumes d: "distinct (map fst es)" and wf: "list_all topic_well_formed tps"
    and g: "map_of es k = Some c" and m: "moves_under supported tps k = Some sch"
  shows "namespaceTopic k sch = Some (ns_key k sch) \<and>
         map_of (moved_entries supported tps es) (ns_key k sch) = Some c"
proof -
  from g have "(k, c) \<in> set es" by (rule map_of_SomeD)
  then have "(ns_key k sch, c) \<in> set (moved_entries supported tps es)"
    using m by (rule moved_entries_mem)
  then have "map_of (moved_entries supported tps es) (ns_key k sch) = Some c"
    using moved_entries_distinct [OF d] by simp
  moreover have "namespaceTopic k sch = Some (ns_key k sch)"
    using moves_under_well_formed [OF wf m] by (simp add: namespaceTopic_ns_key)
  ultimately show ?thesis by simp
qed

lemma moved_entries_no_target:
  assumes wf: "list_all topic_well_formed tps"
    and n: "\<forall>k sch. map_of es k \<noteq> None \<and> moves_under supported tps k = Some sch \<longrightarrow>
                  namespaceTopic k sch \<noteq> Some nk"
  shows "map_of (moved_entries supported tps es) nk = None"
proof (rule ccontr)
  assume "map_of (moved_entries supported tps es) nk \<noteq> None"
  then have "nk \<in> fst ` set (moved_entries supported tps es)"
    by (simp add: map_of_eq_None_iff)
  from moved_entries_keys [OF this]
  obtain k sch where k: "k \<in> fst ` set es" and m: "moves_under supported tps k = Some sch"
    and nk: "nk = ns_key k sch" by blast
  from k have "map_of es k \<noteq> None" by (simp add: map_of_eq_None_iff)
  moreover have "namespaceTopic k sch = Some nk"
    using moves_under_well_formed [OF wf m] nk by (simp add: namespaceTopic_ns_key)
  ultimately show False using n m by blast
qed

text \<open>
  What \<open>migrateConfigTopicsNodes\<close> does with the legacy entries. Let the names in the topic
  list be well-formed strings, the set of supported schemas not contain the empty string,
  and the legacy record have each key once. Then the function returns (it does not throw),
  and
  \<^item> it returns the config object it was given exactly when the topic list is empty or no
    legacy entry moves;
  \<^item> otherwise, in the config it builds, every legacy entry that moves under a schema is
    found in the namespaced record under the namespaced topic of its name and that schema,
    with its settings, and is gone from the legacy record; every legacy entry that does
    not move and whose key is not \<open>__proto__\<close> is still in the legacy record with its
    settings; the legacy record has no entry under \<open>__proto__\<close>, and no other entries; the
    namespaced record is unchanged at every key that is not the target of a moving entry;
    all other fields of the config are unchanged.

  An entry moves under the schema of the first topic of that name when that schema is
  supported, else under the first supported schema that topic is convertible to, in the
  declared order; it does not move when no topic has its name or no such schema exists.
\<close>

lemma migrateConfigTopicsNodes_entries:
  "list_all topic_well_formed tps \<and> [] \<notin> set supported \<and>
   distinct (js_map_keys (cfg_topics oldConfig)) \<longrightarrow>
   (\<exists>r. migrateConfigTopicsNodes supported oldConfig tps = Some r \<and>
      (r = Unchanged \<longleftrightarrow>
         tps = [] \<or> list_all (\<lambda>e. moves_under supported tps (fst e) = None) (cfg_topics oldConfig)) \<and>
      (\<forall>newConfig. r = Rebuilt newConfig \<longrightarrow>
         cfg_rest newConfig = cfg_rest oldConfig \<and>
         (\<forall>k c sch. js_map_get (cfg_topics oldConfig) k = Some c \<and> moves_under supported tps k = Some sch \<longrightarrow>
            (\<exists>nk. namespaceTopic k sch = Some nk \<and> js_map_get (namespacedTopics newConfig) nk = Some c) \<and>
            js_map_get (cfg_topics newConfig) k = None) \<and>
         (\<forall>k. moves_under supported tps k = None \<and> k \<noteq> ''__proto__'' \<longrightarrow>
            js_map_get (cfg_topics newConfig) k = js_map_get (cfg_topics oldConfig) k) \<and>
         js_map_get (cfg_topics newConfig) ''__proto__'' = None \<and>
         (\<forall>nk. (\<forall>k sch. js_map_get (cfg_topics oldConfig) k \<noteq> None \<and>
                           moves_under supported tps k = Some sch \<longrightarrow> namespaceTopic k sch \<noteq> Some nk) \<longrightarrow>
            js_map_get (namespacedTopics newConfig) nk = js_map_get (namespacedTopics oldConfig) nk)))"
proof (intro impI)
  let ?es = "cfg_topics oldConfig"
  let ?moved = "moved_entries supported tps ?es"
  let ?kept = "kept_entries supported tps ?es"
  let ?new = "oldConfig\<lparr>namespacedTopics := js_map_assign (namespacedTopics oldConfig) (js_map_assign [] ?moved),
                        cfg_topics := js_map_assign [] ?kept\<rparr>"
  let ?r = "if tps = [] \<or> ?moved = [] then Unchanged else Rebuilt ?new"
  assume h: "list_all topic_well_formed tps \<and> [] \<notin> set supported \<and> distinct (js_map_keys ?es)"
  then have wf: "list_all topic_well_formed tps" and ne: "[] \<notin> set supported"
    and d: "distinct (map fst ?es)" by (simp_all add: js_map_keys_def)
  have res: "migrateConfigTopicsNodes supported oldConfig tps = Some ?r"
    by (rule migrateConfigTopicsNodes_result [OF wf ne])
  have un: "?r = Unchanged \<longleftrightarrow>
              tps = [] \<or> list_all (\<lambda>e. moves_under supported tps (fst e) = None) ?es"
    by (simp add: moved_entries_empty_iff)
  have kept: "js_map_get (js_map_assign [] ?kept) k =
                (if moves_under supported tps k = None \<and> k \<noteq> ''__proto__''
                 then js_map_get ?es k else None)" for k
    using js_map_assign_fresh_get [OF kept_entries_distinct [OF d], of supported tps k]
    by (simp add: kept_entries_map_of js_map_get_def)
  have ns: "js_map_get (js_map_assign (namespacedTopics oldConfig) (js_map_assign [] ?moved)) nk =
              (case map_of ?moved nk of Some v \<Rightarrow> Some v | None \<Rightarrow> js_map_get (namespacedTopics oldConfig) nk)"
    for nk
    using js_map_assign_twice_get [OF moved_entries_distinct [OF d], of "namespacedTopics oldConfig" supported tps nk]
    by simp
  have a: "(\<exists>nk. namespaceTopic k sch = Some nk \<and> js_map_get (namespacedTopics ?new) nk = Some c) \<and>
           js_map_get (cfg_topics ?new) k = None"
    if "js_map_get ?es k = Some c \<and> moves_under supported tps k = Some sch" for k c sch
  proof -
    from that have g: "map_of ?es k = Some c" and m: "moves_under supported tps k = Some sch"
      by (simp_all add: js_map_get_def)
    from moved_entries_lookup [OF d wf g m]
    have "namespaceTopic k sch = Some (ns_key k sch)"
      and "js_map_get (namespacedTopics ?new) (ns_key k sch) = Some c"
      by (simp_all add: ns)
    then show ?thesis using m by (simp add: kept)
  qed
  have b: "js_map_get (cfg_topics ?new) k = js_map_get ?es k"
    if "moves_under supported tps k = None \<and> k \<noteq> ''__proto__''" for k
    using that by (simp add: kept)
  have p: "js_map_get (cfg_topics ?new) ''__proto__'' = None"
    by (simp add: kept)
  have c: "js_map_get (namespacedTopics ?new) nk = js_map_get (namespacedTopics oldConfig) nk"
    if "\<forall>k sch. js_map_get ?es k \<noteq> None \<and> moves_under supported tps k = Some sch \<longrightarrow>
                namespaceTopic k sch \<noteq> Some nk" for nk
  proof -
    from that have "map_of ?moved nk = None"
      by (intro moved_entries_no_target [OF wf]) (simp add: js_map_get_def)
    then show ?thesis by (simp add: ns)
  qed
  have reb: "cfg_rest newConfig = cfg_rest oldConfig \<and>
         (\<forall>k c sch. js_map_get ?es k = Some c \<and> moves_under supported tps k = Some sch \<longrightarrow>
            (\<exists>nk. namespaceTopic k sch = Some nk \<and> js_map_get (namespacedTopics newConfig) nk = Some c) \<and>
            js_map_get (cfg_topics newConfig) k = None) \<and>
         (\<forall>k. moves_under supported tps k = None \<and> k \<noteq> ''__proto__'' \<longrightarrow>
            js_map_get (cfg_topics newConfig) k = js_map_get ?es k) \<and>
         js_map_get (cfg_topics newConfig) ''__proto__'' = None \<and>
         (\<forall>nk. (\<forall>k sch. js_map_get ?es k \<noteq> None \<and>
                           moves_under supported tps k = Some sch \<longrightarrow> namespaceTopic k sch \<noteq> Some nk) \<longrightarrow>
            js_map_get (namespacedTopics newConfig) nk = js_map_get (namespacedTopics oldConfig) nk)"
    if "?r = Rebuilt newConfig" for newConfig
  proof -
    from that have e: "newConfig = ?new" by (simp split: if_splits)
    show ?thesis unfolding e using a b c p by (intro conjI allI impI) simp_all
  qed
  show "\<exists>r. migrateConfigTopicsNodes supported oldConfig tps = Some r \<and>
      (r = Unchanged \<longleftrightarrow>
         tps = [] \<or> list_all (\<lambda>e. moves_under supported tps (fst e) = None) ?es) \<and>
      (\<forall>newConfig. r = Rebuilt newConfig \<longrightarrow>
         cfg_rest newConfig = cfg_rest oldConfig \<and>
         (\<forall>k c sch. js_map_get ?es k = Some c \<and> moves_under supported tps k = Some sch \<longrightarrow>
            (\<exists>nk. namespaceTopic k sch = Some nk \<and> js_map_get (namespacedTopics newConfig) nk = Some c) \<and>
            js_map_get (cfg_topics newConfig) k = None) \<and>
         (\<forall>k. moves_under supported tps k = None \<and> k \<noteq> ''__proto__'' \<longrightarrow>
            js_map_get (cfg_topics newConfig) k = js_map_get ?es k) \<and>
         js_map_get (cfg_topics newConfig) ''__proto__'' = None \<and>
         (\<forall>nk. (\<forall>k sch. js_map_get ?es k \<noteq> None \<and>
                           moves_under supported tps k = Some sch \<longrightarrow> namespaceTopic k sch \<noteq> Some nk) \<longrightarrow>
            js_map_get (namespacedTopics newConfig) nk = js_map_get (namespacedTopics oldConfig) nk))"
    using res un reb by blast
qed

text \<open>The same at the config and the topic list of the repository's test.\<close>

lemma migrateConfigTopicsNodes_entries_test:
  "list_all topic_well_formed test_topics \<and> [] \<notin> set test_supported \<and>
   distinct (js_map_keys (cfg_topics test_config)) \<and>
   moves_under test_supported test_topics ''topic_a'' = Some ''foxglove.Grid'' \<and>
   moves_under test_supported test_topics ''topic_b'' = None \<and>
   moves_under test_supported test_topics ''topic_c'' = Some ''foxglove.RawImage'' \<and>
   migrateConfigTopicsNodes test_supported test_config test_topics \<noteq> None \<and>
   migrateConfigTopicsNodes test_supported test_config test_topics \<noteq> Some Unchanged \<and>
   migrateConfigTopicsNodes test_supported test_config test_topics =
     Some (Rebuilt \<lparr>cfg_topics = [(''topic_b'', 2)],
                    namespacedTopics = [(''topic_a:foxglove.Grid'', 1), (''topic_c:foxglove.RawImage'', 3),
                                        (''%2Frobot_description:std_msgs%2FString'', 4)],
                    cfg_rest = ()\<rparr>)"
proof -
  have h: "list_all topic_well_formed test_topics \<and> [] \<notin> set test_supported \<and>
           distinct (js_map_keys (cfg_topics test_config))"
    by code_simp
  have m: "moves_under test_supported test_topics ''topic_a'' = Some ''foxglove.Grid''"
          "moves_under test_supported test_topics ''topic_b'' = None"
          "moves_under test_supported test_topics ''topic_c'' = Some ''foxglove.RawImage''"
    by code_simp+
  have n: "\<not> (test_topics = [] \<or>
               list_all (\<lambda>e. moves_under test_supported test_topics (fst e) = None) (cfg_topics test_config))"
    by code_simp
  from migrateConfigTopicsNodes_entries [of test_topics test_supported test_config, THEN mp, OF h]
  obtain r where r: "migrateConfigTopicsNodes test_supported test_config test_topics = Some r"
    and u: "r = Unchanged \<longleftrightarrow>
              test_topics = [] \<or>
              list_all (\<lambda>e. moves_under test_supported test_topics (fst e) = None) (cfg_topics test_config)"
    by blast
  from u n have "r \<noteq> Unchanged" by simp
  with r have a: "migrateConfigTopicsNodes test_supported test_config test_topics \<noteq> None"
    and b: "migrateConfigTopicsNodes test_supported test_config test_topics \<noteq> Some Unchanged"
    by simp_all
  have v: "migrateConfigTopicsNodes test_supported test_config test_topics =
     Some (Rebuilt \<lparr>cfg_topics = [(''topic_b'', 2)],
                    namespacedTopics = [(''topic_a:foxglove.Grid'', 1), (''topic_c:foxglove.RawImage'', 3),
                                        (''%2Frobot_description:std_msgs%2FString'', 4)],
                    cfg_rest = ()\<rparr>)"
    by code_simp
  from h m a b v show ?thesis by blast
qed

text \<open>
  Claim C4. An entry whose topic is not found is to stay in the legacy record, and the
  function's own description says that every node it could not migrate is left in
  \<open>topics\<close>. The loop leaves such an entry by the assignment \<open>unmigratedTopics[key] = config\<close>
  on an object made by \<open>{}\<close>, and for the key \<open>__proto__\<close> that assignment creates no property.
  At a legacy record with the entries \<open>__proto__\<close> and \<open>topic_a\<close>, and the topic list of the
  repository's test, no topic is named \<open>__proto__\<close>, the entry of \<open>topic_a\<close> moves, and the
  config that is built has an empty legacy record: the entry under \<open>__proto__\<close> is lost.
\<close>

theorem migrateConfigTopicsNodes_loses_proto_entry:
  "js_map_get (cfg_topics proto_config) ''__proto__'' = Some 5 \<and>
   List.find (\<lambda>top. name top = ''__proto__'') test_topics = None \<and>
   moves_under test_supported test_topics ''__proto__'' = None \<and>
   migrateConfigTopicsNodes test_supported proto_config test_topics =
     Some (Rebuilt \<lparr>cfg_topics = [], namespacedTopics = [(''topic_a:foxglove.Grid'', 1)],
                    cfg_rest = ()\<rparr>)"
  by code_simp

subsection \<open>C1: the newest synchronized set\<close>

lemma isLessThan_iff: "isLessThan a b \<longleftrightarrow> sec a < sec b \<or> (sec a = sec b \<and> nsec a < nsec b)"
  by (auto simp: isLessThan_def compareTime_def Let_def)

lemma compareTime_zero_iff: "compareTime a b = 0 \<longleftrightarrow> a = (b :: Time)"
  by (cases a, cases b) (auto simp: compareTime_def Let_def)

lemma isLessThan_trans: "isLessThan a b \<Longrightarrow> isLessThan b c \<Longrightarrow> isLessThan a c"
  by (auto simp: isLessThan_iff)

lemma isLessThan_irrefl: "\<not> isLessThan a a"
  by (simp add: isLessThan_iff)

lemma isLessThan_total: "isLessThan a b \<or> a = b \<or> isLessThan b (a :: Time)"
  by (cases a, cases b) (auto simp: isLessThan_iff)

lemma compareTime_less_iff: "compareTime a b < 0 \<longleftrightarrow> isLessThan a b"
  by (simp add: isLessThan_def)

lemma fold_valid_last:
  "foldl (\<lambda>valid entry. if P entry then Some entry else valid) a es =
     (if filter P es = [] then a else Some (last (filter P es)))"
  by (induction es arbitrary: a) auto

lemma hasOnlyVisibleAnnotations_iff:
  assumes "distinct vis" "distinct (js_map_keys (annotationsByNamespacedTopic it))"
  shows "hasOnlyVisibleAnnotations vis it \<longleftrightarrow> set (js_map_keys (annotationsByNamespacedTopic it)) = set vis"
proof -
  let ?ks = "js_map_keys (annotationsByNamespacedTopic it)"
  have g: "js_map_get (annotationsByNamespacedTopic it) tp \<noteq> None \<longleftrightarrow> tp \<in> set ?ks" for tp
    by (simp add: js_map_get_def js_map_keys_def map_of_eq_None_iff)
  have len: "length (annotationsByNamespacedTopic it) = card (set ?ks)"
    using distinct_card [OF assms(2)] by (simp add: js_map_keys_def)
  have lv: "length vis = card (set vis)" using assms(1) by (simp add: distinct_card)
  have h: "hasOnlyVisibleAnnotations vis it \<longleftrightarrow> card (set vis) = card (set ?ks) \<and> set vis \<subseteq> set ?ks"
    unfolding hasOnlyVisibleAnnotations_def list_all_iff g len lv by blast
  show ?thesis
  proof
    assume "hasOnlyVisibleAnnotations vis it"
    then have c: "card (set vis) = card (set ?ks)" and s: "set vis \<subseteq> set ?ks"
      using h by simp_all
    have "set vis = set ?ks" by (rule card_subset_eq [OF _ s c]) simp
    then show "set ?ks = set vis" by simp
  next
    assume "set ?ks = set vis"
    then show "hasOnlyVisibleAnnotations vis it"
      using h by simp
  qed
qed

lemma shift_older_sorted:
  "sorted_wrt isLessThan (map fst tr) \<Longrightarrow>
   shift_older tr w = filter (\<lambda>e. \<not> isLessThan (fst e) w) tr"
proof (induction tr)
  case Nil
  then show ?case by simp
next
  case (Cons e tr)
  obtain k v where e: "e = (k, v)" by (cases e)
  from Cons.prems have s: "sorted_wrt isLessThan (map fst tr)"
    and lt: "\<forall>x \<in> set tr. isLessThan k (fst x)" by (simp_all add: e)
  show ?case
  proof (cases "isLessThan k w")
    case True
    then show ?thesis using Cons.IH [OF s] by (simp add: e)
  next
    case False
    have "\<not> isLessThan (fst x) w" if "x \<in> set tr" for x
      using that lt False isLessThan_trans by blast
    then have "filter (\<lambda>e. \<not> isLessThan (fst e) w) tr = tr" by (simp add: filter_id_conv)
    then show ?thesis using False by (simp add: e)
  qed
qed

lemma distinct_visibleAnnotations: "distinct (visibleAnnotations cfg)"
  by (simp add: visibleAnnotations_def uniq_def distinct_uniq_into)

lemma filter_qualifies:
  assumes "index_ok tr" "distinct vis"
  shows "filter (\<lambda>entry. item_image (snd entry) \<noteq> None \<and> hasOnlyVisibleAnnotations vis (snd entry)) tr =
         filter (qualifies vis) tr"
proof (rule filter_cong [OF refl])
  fix x assume "x \<in> set tr"
  with assms(1) have "distinct (js_map_keys (annotationsByNamespacedTopic (snd x)))"
    by (simp add: index_ok_def list_all_iff)
  from hasOnlyVisibleAnnotations_iff [OF assms(2) this]
  show "(item_image (snd x) \<noteq> None \<and> hasOnlyVisibleAnnotations vis (snd x)) = qualifies vis x"
    by (simp add: qualifies_def)
qed

lemma findSynchronizedSet_spec:
  assumes "index_ok tr" "distinct vis"
  shows "findSynchronizedSetAndRemoveOlderItems tr vis =
           (if filter (qualifies vis) tr = [] then (None, tr)
            else (Some (last (filter (qualifies vis) tr)),
                  filter (\<lambda>e. \<not> isLessThan (fst e) (fst (last (filter (qualifies vis) tr)))) tr))"
proof -
  have s: "sorted_wrt isLessThan (map fst tr)" using assms(1) by (simp add: index_ok_def)
  show ?thesis
    unfolding findSynchronizedSetAndRemoveOlderItems_def fold_valid_last filter_qualifies [OF assms]
              Let_def shift_older_sorted [OF s]
    by simp
qed

lemma sorted_last_newest:
  assumes "sorted_wrt isLessThan (map fst tr)" "e \<in> set (filter P tr)"
  shows "e = last (filter P tr) \<or> isLessThan (fst e) (fst (last (filter P tr)))"
proof -
  have "sorted_wrt isLessThan (map fst (filter P tr))"
    using assms(1) by (simp add: sorted_wrt_map sorted_wrt_filter)
  moreover have "sorted_wrt R (map fst xs) \<Longrightarrow> x \<in> set xs \<Longrightarrow> x = last xs \<or> R (fst x) (fst (last xs))"
    for R and xs :: "('k \<times> 'v) list" and x
    by (induction xs) (auto split: if_splits)
  ultimately show ?thesis using assms(2) by blast
qed

text \<open>
  Claim C1. In synchronized mode, on an index that satisfies its invariant:
  \<^item> when no entry qualifies (has an image and exactly the visible annotation topics),
    \<open>getRenderState\<close> returns a state with the stored calibration only, image and
    annotations absent, and leaves the handler as it is;
  \<^item> otherwise it returns the image and the annotation batches of the winner, the last
    qualifying entry in ascending order of time, together with the stored calibration; the
    winner is an entry of the index that qualifies, and every other qualifying entry has a
    strictly older timestamp; the index afterwards holds exactly the entries that are not
    strictly older than the winner, so the winner and all newer entries are retained and
    all strictly older ones are removed.
\<close>

theorem getRenderState_newest_synchronized:
  "synchronize (config this) = Some True \<and> index_ok (tree this) \<longrightarrow>
   (filter (qualifies (visibleAnnotations (config this))) (tree this) = [] \<longrightarrow>
      getRenderState this =
        (\<lparr>rs_image = None, rs_cameraInfo = st_cameraInfo (lastReceivedMessages this), rs_annotations = None\<rparr>,
         this)) \<and>
   (filter (qualifies (visibleAnnotations (config this))) (tree this) \<noteq> [] \<longrightarrow>
      (let winner = last (filter (qualifies (visibleAnnotations (config this))) (tree this))
       in getRenderState this =
            (\<lparr>rs_image = item_image (snd winner),
              rs_cameraInfo = st_cameraInfo (lastReceivedMessages this),
              rs_annotations = Some (annotationsByNamespacedTopic (snd winner))\<rparr>,
             this\<lparr>tree := filter (\<lambda>e. \<not> isLessThan (fst e) (fst winner)) (tree this)\<rparr>) \<and>
          winner \<in> set (tree this) \<and>
          qualifies (visibleAnnotations (config this)) winner \<and>
          (\<forall>e \<in> set (tree this). qualifies (visibleAnnotations (config this)) e \<longrightarrow>
                e = winner \<or> isLessThan (fst e) (fst winner))))"
proof (intro impI)
  let ?vis = "visibleAnnotations (config this)"
  let ?q = "filter (qualifies ?vis) (tree this)"
  assume h: "synchronize (config this) = Some True \<and> index_ok (tree this)"
  then have sy: "synchronize (config this) = Some True" and ok: "index_ok (tree this)" by simp_all
  have s: "sorted_wrt isLessThan (map fst (tree this))" using ok by (simp add: index_ok_def)
  note f = findSynchronizedSet_spec [OF ok distinct_visibleAnnotations, of "config this"]
  have none: "getRenderState this =
        (\<lparr>rs_image = None, rs_cameraInfo = st_cameraInfo (lastReceivedMessages this), rs_annotations = None\<rparr>,
         this)" if "?q = []"
    using that sy by (simp add: getRenderState_def f)
  have some: "getRenderState this =
            (\<lparr>rs_image = item_image (snd (last ?q)),
              rs_cameraInfo = st_cameraInfo (lastReceivedMessages this),
              rs_annotations = Some (annotationsByNamespacedTopic (snd (last ?q)))\<rparr>,
             this\<lparr>tree := filter (\<lambda>e. \<not> isLessThan (fst e) (fst (last ?q))) (tree this)\<rparr>)"
    if "?q \<noteq> []"
    using that sy by (simp add: getRenderState_def f)
  have mem: "last ?q \<in> set (tree this) \<and> qualifies ?vis (last ?q)" if "?q \<noteq> []"
  proof -
    from that have "last ?q \<in> set ?q" by (rule last_in_set)
    then show ?thesis by simp
  qed
  have newest: "e = last ?q \<or> isLessThan (fst e) (fst (last ?q))"
    if "e \<in> set (tree this)" "qualifies ?vis e" for e
    using sorted_last_newest [OF s, of e "qualifies ?vis"] that by simp
  show "(?q = [] \<longrightarrow>
      getRenderState this =
        (\<lparr>rs_image = None, rs_cameraInfo = st_cameraInfo (lastReceivedMessages this), rs_annotations = None\<rparr>,
         this)) \<and>
   (?q \<noteq> [] \<longrightarrow>
      (let winner = last ?q
       in getRenderState this =
            (\<lparr>rs_image = item_image (snd winner),
              rs_cameraInfo = st_cameraInfo (lastReceivedMessages this),
              rs_annotations = Some (annotationsByNamespacedTopic (snd winner))\<rparr>,
             this\<lparr>tree := filter (\<lambda>e. \<not> isLessThan (fst e) (fst winner)) (tree this)\<rparr>) \<and>
          winner \<in> set (tree this) \<and>
          qualifies ?vis winner \<and>
          (\<forall>e \<in> set (tree this). qualifies ?vis e \<longrightarrow>
                e = winner \<or> isLessThan (fst e) (fst winner))))"
    unfolding Let_def using none some mem newest by blast
qed

text \<open>
  The theorem at an index with qualifying entries at times 1 and 2 and an entry without
  image at time 3: the entry of time 2 wins and the entry of time 1 is removed.
\<close>

theorem getRenderState_newest_synchronized_witness:
  "synchronize (config sync_handler) = Some True \<and> index_ok (tree sync_handler) \<and>
   getRenderState sync_handler =
     (\<lparr>rs_image = Some (image_at 2), rs_cameraInfo = Some 7,
       rs_annotations = Some [(topic_x, batch_of topic_x 2)]\<rparr>,
      sync_handler\<lparr>tree := [entry_at 2 True [topic_x], entry_at 3 False [topic_x]]\<rparr>)"
proof -
  have h: "synchronize (config sync_handler) = Some True \<and> index_ok (tree sync_handler)"
    by code_simp
  have q: "filter (qualifies (visibleAnnotations (config sync_handler))) (tree sync_handler) =
             [entry_at 1 True [topic_x], entry_at 2 True [topic_x]]"
    by code_simp
  have t: "filter (\<lambda>e. \<not> isLessThan (fst e) \<lparr>sec = 2, nsec = 0\<rparr>) (tree sync_handler) =
             [entry_at 2 True [topic_x], entry_at 3 False [topic_x]]"
    by code_simp
  have c: "st_cameraInfo (lastReceivedMessages sync_handler) = Some 7" by (simp add: sync_handler_def)
  from getRenderState_newest_synchronized [of sync_handler, THEN mp, OF h, THEN conjunct2]
  show ?thesis
    using h by (simp add: q t c Let_def entry_at_def)
qed

subsection \<open>C9: messages at a timestamp that has an entry\<close>

lemma tree_get_set:
  "tree_get (tree_set t k v) k' = (if k' = k then Some v else tree_get t k')"
  by (induction t) (auto simp: compareTime_zero_iff)

lemma tree_get_mem: "tree_get t k = Some v \<Longrightarrow> (k, v) \<in> set t"
  by (induction t) (auto simp: compareTime_zero_iff split: if_splits)

lemma tree_set_keys:
  "sorted_wrt isLessThan (map fst t) \<Longrightarrow> tree_get t k = Some v' \<Longrightarrow>
   map fst (tree_set t k v) = map fst t"
proof (induction t)
  case Nil
  then show ?case by simp
next
  case (Cons e t)
  obtain a w where e: "e = (a, w)" by (cases e)
  show ?case
  proof (cases "k = a")
    case True
    then show ?thesis by (simp add: e compareTime_zero_iff compareTime_less_iff isLessThan_irrefl)
  next
    case False
    with Cons.prems(2) have g: "tree_get t k = Some v'" by (simp add: e compareTime_zero_iff)
    then have "(k, v') \<in> set t" by (rule tree_get_mem)
    with Cons.prems(1) have "isLessThan a k" by (auto simp: e)
    then have "\<not> isLessThan k a" using isLessThan_trans isLessThan_irrefl by blast
    moreover from Cons.prems(1) have "sorted_wrt isLessThan (map fst t)" by simp
    ultimately show ?thesis
      using False Cons.IH g by (simp add: e compareTime_zero_iff compareTime_less_iff)
  qed
qed

lemma shift_older_subset: "set (shift_older t w) \<subseteq> set t"
  by (induction t) (auto split: if_splits)

lemma findSynchronizedSet_subset:
  "set (snd (findSynchronizedSetAndRemoveOlderItems tr vis)) \<subseteq> set tr"
  using shift_older_subset
  by (auto simp: findSynchronizedSetAndRemoveOlderItems_def Let_def split: option.splits)

lemma getRenderState_frame:
  "set (tree (snd (getRenderState this))) \<subseteq> set (tree this)"
  "lastReceivedMessages (snd (getRenderState this)) = lastReceivedMessages this"
  "config (snd (getRenderState this)) = config this"
  "notified (snd (getRenderState this)) = notified this"
  "oldRenderState (snd (getRenderState this)) = oldRenderState this"
  using findSynchronizedSet_subset [of "tree this" "visibleAnnotations (config this)"]
  by (auto simp: getRenderState_def split: prod.splits option.splits)

lemma emitState_frame:
  "set (tree (emitState this)) \<subseteq> set (tree this)"
  "lastReceivedMessages (emitState this) = lastReceivedMessages this"
  "config (emitState this) = config this"
  "length (notified (emitState this)) = length (notified this) + 1"
  using getRenderState_frame [of this]
  by (auto simp: emitState_def split: prod.splits)

lemma fromNanoSec_inj: "fromNanoSec a = fromNanoSec b \<Longrightarrow> a = b"
proof -
  assume "fromNanoSec a = fromNanoSec b"
  then have "a div 1000000000 = b div 1000000000" "a mod 1000000000 = b mod 1000000000"
    by (simp_all add: fromNanoSec_def)
  then show ?thesis by (metis div_mult_mod_eq)
qed

lemma store_group_get:
  "tree_get (store_group nt ev tr g) k =
     (if k = fromNanoSec (fst g)
      then Some ((case tree_get tr k of Some it \<Rightarrow> it
                  | None \<Rightarrow> \<lparr>item_image = None, annotationsByNamespacedTopic = []\<rparr>)
                 \<lparr>annotationsByNamespacedTopic :=
                    js_map_set (annotationsByNamespacedTopic
                                  (case tree_get tr k of Some it \<Rightarrow> it
                                   | None \<Rightarrow> \<lparr>item_image = None, annotationsByNamespacedTopic = []\<rparr>))
                               nt \<lparr>originalMessage = ev, annotations = snd g\<rparr>\<rparr>)
      else tree_get tr k)"
  by (simp add: store_group_def Let_def tree_get_set)

lemma store_groups_other:
  "n \<notin> fst ` set gs \<Longrightarrow>
   tree_get (foldl (store_group nt ev) tr gs) (fromNanoSec n) = tree_get tr (fromNanoSec n)"
proof (induction gs arbitrary: tr)
  case Nil
  then show ?case by simp
next
  case (Cons g gs)
  then have "fst g \<noteq> n" and "n \<notin> fst ` set gs" by auto
  then show ?case
    using Cons.IH [of "store_group nt ev tr g"] fromNanoSec_inj [of n "fst g"]
    by (auto simp: store_group_get)
qed

lemma store_groups_get:
  assumes "distinct (map fst gs)" "(n, g) \<in> set gs" "tree_get tr (fromNanoSec n) = Some item"
  shows "tree_get (foldl (store_group nt ev) tr gs) (fromNanoSec n) =
           Some (item\<lparr>annotationsByNamespacedTopic :=
                        js_map_set (annotationsByNamespacedTopic item) nt
                          \<lparr>originalMessage = ev, annotations = g\<rparr>\<rparr>)"
  using assms
proof (induction gs arbitrary: tr)
  case Nil
  then show ?case by simp
next
  case (Cons x gs)
  show ?case
  proof (cases "x = (n, g)")
    case True
    with Cons.prems(1) have "n \<notin> fst ` set gs" by auto
    from store_groups_other [OF this, of nt ev "store_group nt ev tr x"]
    show ?thesis using True Cons.prems(3) by (simp add: store_group_get)
  next
    case False
    with Cons.prems have m: "(n, g) \<in> set gs" and d: "distinct (map fst gs)" by auto
    from m have "n \<in> fst ` set gs" by force
    with Cons.prems(1) have "fst x \<noteq> n" by auto
    then have "tree_get (store_group nt ev tr x) (fromNanoSec n) = Some item"
      using Cons.prems(3) fromNanoSec_inj [of n "fst x"] by (auto simp: store_group_get)
    from Cons.IH [OF d m this] show ?thesis by simp
  qed
qed

lemma js_map_set_distinct: "distinct (map fst m) \<Longrightarrow> distinct (map fst (js_map_set m k v))"
  by (simp add: js_map_set_def distinct_update)

lemma group_annotations_distinct: "distinct (map fst (group_annotations anns))"
proof -
  have "distinct (map fst m) \<Longrightarrow>
        distinct (map fst (foldl (\<lambda>groups annotation.
              let key = toNanoSec (stamp annotation)
              in case js_map_get groups key of
                   Some arr \<Rightarrow> js_map_set groups key (arr @ [annotation])
                 | None \<Rightarrow> js_map_set groups key [annotation]) m xs))"
    for m :: "(nat, 'a Annotation list) js_map" and xs
    by (induction xs arbitrary: m) (simp_all add: Let_def js_map_set_distinct split: option.splits)
  then show ?thesis by (simp add: group_annotations_def)
qed

text \<open>
  Claim C9. In synchronized mode:
  \<^item> when \<open>handleImage\<close> receives an image whose timestamp has an entry in the index, the
    index it stores has at that timestamp the same entry with only the image field set to
    the new image, its annotation batches unchanged; every other timestamp has the entry it
    had, and the timestamps of the index are the same;
  \<^item> when \<open>handleAnnotations\<close> stores a group of the message's annotations at a timestamp
    that has an entry, the index it stores has at that timestamp an entry with the same
    image, with the group under the namespaced topic of the message, and with the batch it
    had under every other namespaced topic.

  Both handlers then emit the state: the index of the handler they return holds entries of
  the stored index only (the emission may evict entries, it never alters one).
\<close>

theorem handle_existing_timestamp_frame:
  "synchronize (config this) = Some True \<longrightarrow>
   (index_ok (tree this) \<and> tree_get (tree this) (img_stamp m) = Some item \<longrightarrow>
      handleImage this m = emitState (this\<lparr>tree := store_image (tree this) m\<rparr>) \<and>
      tree_get (store_image (tree this) m) (img_stamp m) = Some (item\<lparr>item_image := Some m\<rparr>) \<and>
      annotationsByNamespacedTopic (item\<lparr>item_image := Some m\<rparr>) = annotationsByNamespacedTopic item \<and>
      (\<forall>k. k \<noteq> img_stamp m \<longrightarrow> tree_get (store_image (tree this) m) k = tree_get (tree this) k) \<and>
      map fst (store_image (tree this) m) = map fst (tree this) \<and>
      set (tree (handleImage this m)) \<subseteq> set (store_image (tree this) m)) \<and>
   (namespaceTopic (ae_topic ev) (ae_schemaName ev) = Some nt \<and>
    (n, g) \<in> set (group_annotations (normalizeAnnotations (ae_message ev) (ae_schemaName ev))) \<and>
    tree_get (tree this) (fromNanoSec n) = Some item' \<longrightarrow>
      (\<exists>stored.
         handleAnnotations normalizeAnnotations this ev = Some (emitState (this\<lparr>tree := stored\<rparr>)) \<and>
         set (tree (emitState (this\<lparr>tree := stored\<rparr>))) \<subseteq> set stored \<and>
         (\<exists>updated.
            tree_get stored (fromNanoSec n) = Some updated \<and>
            item_image updated = item_image item' \<and>
            js_map_get (annotationsByNamespacedTopic updated) nt =
              Some \<lparr>originalMessage = ev, annotations = g\<rparr> \<and>
            (\<forall>k. k \<noteq> nt \<longrightarrow>
               js_map_get (annotationsByNamespacedTopic updated) k =
               js_map_get (annotationsByNamespacedTopic item') k))))"
proof (intro impI conjI)
  assume sy: "synchronize (config this) = Some True"
  {
    assume h: "index_ok (tree this) \<and> tree_get (tree this) (img_stamp m) = Some item"
    then have s: "sorted_wrt isLessThan (map fst (tree this))"
      and g: "tree_get (tree this) (img_stamp m) = Some item" by (simp_all add: index_ok_def)
    have st: "store_image (tree this) m = tree_set (tree this) (img_stamp m) (item\<lparr>item_image := Some m\<rparr>)"
      using g by (simp add: store_image_def)
    show hi: "handleImage this m = emitState (this\<lparr>tree := store_image (tree this) m\<rparr>)"
      using sy by (simp add: handleImage_def)
    show "tree_get (store_image (tree this) m) (img_stamp m) = Some (item\<lparr>item_image := Some m\<rparr>)"
      by (simp add: st tree_get_set)
    show "annotationsByNamespacedTopic (item\<lparr>item_image := Some m\<rparr>) = annotationsByNamespacedTopic item"
      by simp
    show "\<forall>k. k \<noteq> img_stamp m \<longrightarrow> tree_get (store_image (tree this) m) k = tree_get (tree this) k"
      by (simp add: st tree_get_set)
    show "map fst (store_image (tree this) m) = map fst (tree this)"
      unfolding st by (rule tree_set_keys [OF s g])
    show "set (tree (handleImage this m)) \<subseteq> set (store_image (tree this) m)"
      unfolding hi using emitState_frame(1) [of "this\<lparr>tree := store_image (tree this) m\<rparr>"] by simp
  }
  {
    let ?anns = "normalizeAnnotations (ae_message ev) (ae_schemaName ev)"
    let ?stored = "foldl (store_group nt ev) (tree this) (group_annotations ?anns)"
    let ?updated = "item'\<lparr>annotationsByNamespacedTopic :=
                      js_map_set (annotationsByNamespacedTopic item') nt
                        \<lparr>originalMessage = ev, annotations = g\<rparr>\<rparr>"
    assume h: "namespaceTopic (ae_topic ev) (ae_schemaName ev) = Some nt \<and>
               (n, g) \<in> set (group_annotations ?anns) \<and>
               tree_get (tree this) (fromNanoSec n) = Some item'"
    have ha: "handleAnnotations normalizeAnnotations this ev = Some (emitState (this\<lparr>tree := ?stored\<rparr>))"
      using h sy by (simp add: handleAnnotations_def Let_def)
    have sub: "set (tree (emitState (this\<lparr>tree := ?stored\<rparr>))) \<subseteq> set ?stored"
      using emitState_frame(1) [of "this\<lparr>tree := ?stored\<rparr>"] by simp
    have up: "tree_get ?stored (fromNanoSec n) = Some ?updated"
      using h by (intro store_groups_get [OF group_annotations_distinct]) simp_all
    have "item_image ?updated = item_image item' \<and>
          js_map_get (annotationsByNamespacedTopic ?updated) nt = Some \<lparr>originalMessage = ev, annotations = g\<rparr> \<and>
          (\<forall>k. k \<noteq> nt \<longrightarrow>
             js_map_get (annotationsByNamespacedTopic ?updated) k =
             js_map_get (annotationsByNamespacedTopic item') k)"
      by (simp add: js_map_get_set)
    with ha sub up
    show "\<exists>stored.
         handleAnnotations normalizeAnnotations this ev = Some (emitState (this\<lparr>tree := stored\<rparr>)) \<and>
         set (tree (emitState (this\<lparr>tree := stored\<rparr>))) \<subseteq> set stored \<and>
         (\<exists>updated.
            tree_get stored (fromNanoSec n) = Some updated \<and>
            item_image updated = item_image item' \<and>
            js_map_get (annotationsByNamespacedTopic updated) nt =
              Some \<lparr>originalMessage = ev, annotations = g\<rparr> \<and>
            (\<forall>k. k \<noteq> nt \<longrightarrow>
               js_map_get (annotationsByNamespacedTopic updated) k =
               js_map_get (annotationsByNamespacedTopic item') k))"
      by blast
  }
qed

text \<open>
  The theorem at the index with entries at times 1, 2 and 3: an image arrives at time 3,
  and an annotation message on \<open>/y\<close> arrives for time 2, where a batch for \<open>/x\<close> is buffered.
\<close>

theorem handle_existing_timestamp_frame_witness:
  "synchronize (config sync_handler) = Some True \<and> index_ok (tree sync_handler) \<and>
   tree_get (store_image (tree sync_handler) (image_at 3)) \<lparr>sec = 3, nsec = 0\<rparr> =
     Some \<lparr>item_image = Some (image_at 3), annotationsByNamespacedTopic = [(topic_x, batch_of topic_x 3)]\<rparr> \<and>
   map fst (store_image (tree sync_handler) (image_at 3)) = map fst (tree sync_handler) \<and>
   (\<exists>stored.
      handleAnnotations y_normalizer sync_handler y_event = Some (emitState (sync_handler\<lparr>tree := stored\<rparr>)) \<and>
      (\<exists>updated.
         tree_get stored \<lparr>sec = 2, nsec = 0\<rparr> = Some updated \<and>
         item_image updated = Some (image_at 2) \<and>
         js_map_get (annotationsByNamespacedTopic updated) topic_y =
           Some \<lparr>originalMessage = y_event, annotations = [y_annotation]\<rparr> \<and>
         js_map_get (annotationsByNamespacedTopic updated) topic_x = Some (batch_of topic_x 2)))"
proof -
  have sy: "synchronize (config sync_handler) = Some True" by code_simp
  have ok: "index_ok (tree sync_handler)" by code_simp
  have g3: "tree_get (tree sync_handler) (img_stamp (image_at 3)) = Some (snd (entry_at 3 False [topic_x]))"
    by code_simp
  have s3: "img_stamp (image_at 3) = \<lparr>sec = 3, nsec = 0\<rparr>" by (simp add: image_at_def)
  have ns: "namespaceTopic (ae_topic y_event) (ae_schemaName y_event) = Some topic_y" by code_simp
  have gr: "(2000000000, [y_annotation]) \<in>
              set (group_annotations (y_normalizer (ae_message y_event) (ae_schemaName y_event)))"
    by (simp add: group_annotations_def y_normalizer_def y_annotation_def toNanoSec_def
                  js_map_get_def js_map_set_def)
  have f2: "fromNanoSec 2000000000 = \<lparr>sec = 2, nsec = 0\<rparr>" by (simp add: fromNanoSec_def)
  have "tree_get (tree sync_handler) \<lparr>sec = 2, nsec = 0\<rparr> = Some (snd (entry_at 2 True [topic_x]))"
    by code_simp
  then have g2: "tree_get (tree sync_handler) (fromNanoSec 2000000000) = Some (snd (entry_at 2 True [topic_x]))"
    by (simp only: f2)
  have xy: "topic_x \<noteq> topic_y" by (simp add: topic_x_def topic_y_def)
  note t = handle_existing_timestamp_frame
             [where this = sync_handler and m = "image_at 3" and item = "snd (entry_at 3 False [topic_x])"
                and ev = y_event and nt = topic_y and n = 2000000000 and g = "[y_annotation]"
                and normalizeAnnotations = y_normalizer and item' = "snd (entry_at 2 True [topic_x])",
              THEN mp, OF sy]
  from t [THEN conjunct1, THEN mp, OF conjI [OF ok g3]]
  have a: "tree_get (store_image (tree sync_handler) (image_at 3)) \<lparr>sec = 3, nsec = 0\<rparr> =
             Some \<lparr>item_image = Some (image_at 3), annotationsByNamespacedTopic = [(topic_x, batch_of topic_x 3)]\<rparr>"
    and b: "map fst (store_image (tree sync_handler) (image_at 3)) = map fst (tree sync_handler)"
    by (simp_all add: s3 entry_at_def)
  from t [THEN conjunct2, THEN mp, OF conjI [OF ns conjI [OF gr g2]]]
  obtain stored updated where
    c: "handleAnnotations y_normalizer sync_handler y_event = Some (emitState (sync_handler\<lparr>tree := stored\<rparr>))"
    and d: "tree_get stored \<lparr>sec = 2, nsec = 0\<rparr> = Some updated"
           "item_image updated = Some (image_at 2)"
           "js_map_get (annotationsByNamespacedTopic updated) topic_y =
              Some \<lparr>originalMessage = y_event, annotations = [y_annotation]\<rparr>"
    and e: "\<forall>k. k \<noteq> topic_y \<longrightarrow>
              js_map_get (annotationsByNamespacedTopic updated) k =
              js_map_get (annotationsByNamespacedTopic (snd (entry_at 2 True [topic_x]))) k"
    unfolding f2 by (auto simp: entry_at_def)
  from e xy have "js_map_get (annotationsByNamespacedTopic updated) topic_x = Some (batch_of topic_x 2)"
    by (simp add: entry_at_def js_map_get_def)
  with sy ok a b c d show ?thesis by blast
qed

subsection \<open>C7: the targeted resets of setConfig\<close>

lemma newVisibleAnnotationsMap_get:
  "js_map_get (newVisibleAnnotationsMap a) tp = (if visible_in a tp then Some True else None)"
proof -
  have "js_map_get (foldl (\<lambda>m e. if snd e = Some True then js_map_set m (fst e) True else m) m es) tp =
          (if (tp, Some True) \<in> set es then Some True else js_map_get m tp)" for m es
    by (induction es arbitrary: m) (auto simp: js_map_get_set)
  then show ?thesis by (simp add: newVisibleAnnotationsMap_def visible_in_def js_map_get_Nil)
qed

lemma delete_invisible_fold:
  "foldl (\<lambda>acc tp. if js_map_get vis tp = None then (js_map_delete (fst acc) tp, True) else acc)
         (m, c) ks =
     (filter (\<lambda>e. \<not> (fst e \<in> set ks \<and> js_map_get vis (fst e) = None)) m,
      c \<or> list_ex (\<lambda>k. js_map_get vis k = None) ks)"
proof (induction ks arbitrary: m c)
  case Nil
  then show ?case by simp
next
  case (Cons k ks)
  show ?case
    by (auto simp: Cons.IH js_map_delete_def intro: filter_cong)
qed

lemma delete_invisible_spec:
  "delete_invisible (newVisibleAnnotationsMap a) m = (keep_visible a m, has_invisible a m)"
proof -
  have "filter (\<lambda>e. \<not> (fst e \<in> set (js_map_keys m) \<and> js_map_get (newVisibleAnnotationsMap a) (fst e) = None)) m =
        keep_visible a m"
    unfolding keep_visible_def
    by (rule filter_cong [OF refl]) (auto simp: newVisibleAnnotationsMap_get js_map_keys_def)
  moreover have "list_ex (\<lambda>k. js_map_get (newVisibleAnnotationsMap a) k = None) (js_map_keys m) =
                 has_invisible a m"
    by (auto simp: has_invisible_def list_ex_iff newVisibleAnnotationsMap_get js_map_keys_def)
  ultimately show ?thesis
    by (simp add: delete_invisible_def delete_invisible_fold)
qed

lemma reset_synchronize_spec:
  "reset_synchronize nc this =
     (if synchronize_toggled (config this) nc then (this\<lparr>tree := []\<rparr>, True) else (this, False))"
  by (auto simp: reset_synchronize_def synchronize_toggled_def split: option.splits)

lemma reset_imageTopic_spec:
  "reset_imageTopic nc this =
     (if imageTopic_changed (config this) nc
      then (this\<lparr>tree := map (\<lambda>e. (fst e, (snd e)\<lparr>item_image := None\<rparr>)) (tree this),
                 lastReceivedMessages := (lastReceivedMessages this)\<lparr>st_image := None\<rparr>\<rparr>, True)
      else (this, False))"
  by (auto simp: reset_imageTopic_def imageTopic_changed_def split: option.splits)

lemma reset_calibrationTopic_spec:
  "reset_calibrationTopic nc this =
     (if calibrationTopic_changed (config this) nc
      then (this\<lparr>lastReceivedMessages := (lastReceivedMessages this)\<lparr>st_cameraInfo := None\<rparr>\<rparr>, True)
      else (this, False))"
  by (auto simp: reset_calibrationTopic_def calibrationTopic_changed_def split: option.splits)

lemma reset_annotations_spec:
  "reset_annotations nc this =
     (case annotations_replaced (config this) nc of
        Some a \<Rightarrow>
          (this\<lparr>lastReceivedMessages :=
                   (lastReceivedMessages this)\<lparr>st_annotations := keep_visible a (st_annotations (lastReceivedMessages this))\<rparr>,
                tree := map (\<lambda>e. (fst e, (snd e)\<lparr>annotationsByNamespacedTopic :=
                                                    keep_visible a (annotationsByNamespacedTopic (snd e))\<rparr>))
                            (tree this)\<rparr>,
           has_invisible a (st_annotations (lastReceivedMessages this)) \<or>
           list_ex (\<lambda>e. has_invisible a (annotationsByNamespacedTopic (snd e))) (tree this))
      | None \<Rightarrow> (this, False))"
  by (simp add: reset_annotations_def annotations_replaced_def delete_invisible_spec Let_def
           split: option.splits)

lemma setConfig_resets_tree:
  "tree (fst (setConfig_resets this nc)) =
     map (\<lambda>e. (fst e,
                (snd e)\<lparr>item_image := (if imageTopic_changed (config this) nc then None else item_image (snd e)),
                        annotationsByNamespacedTopic :=
                          (case annotations_replaced (config this) nc of
                             Some a \<Rightarrow> keep_visible a (annotationsByNamespacedTopic (snd e))
                           | None \<Rightarrow> annotationsByNamespacedTopic (snd e))\<rparr>))
         (if synchronize_toggled (config this) nc then [] else tree this)"
  by (simp add: setConfig_resets_def reset_synchronize_spec reset_imageTopic_spec
                reset_calibrationTopic_spec reset_annotations_spec o_def
           split: option.splits)





subsection \<open>The invariant of the index is preserved\<close>

text \<open>
  The recursion \<open>shift_older\<close> is the loop of the source, written with \<open>minKey\<close> and \<open>shift\<close>.
\<close>

lemma shift_older_loop:
  "shift_older t w =
     (case minKey t of
        Some k \<Rightarrow> if isLessThan k w then shift_older (shift t) w else t
      | None \<Rightarrow> t)"
  by (cases t) (auto simp: minKey_def shift_def)

lemma tree_set_mem:
  "x \<in> set (tree_set t k v) \<Longrightarrow> x \<in> set t \<or> x = (k, v) \<or> (fst x = k \<and> snd x = v)"
  by (induction t) (auto simp: compareTime_zero_iff split: if_splits)

lemma tree_set_key_set: "fst ` set (tree_set t k v) = insert k (fst ` set t)"
proof (induction t)
  case Nil
  then show ?case by simp
next
  case (Cons e t)
  obtain a w where e: "e = (a, w)" by (cases e)
  show ?case
    using Cons.IH by (simp add: e compareTime_zero_iff insert_commute)
qed

lemma tree_set_sorted:
  "sorted_wrt isLessThan (map fst t) \<Longrightarrow> sorted_wrt isLessThan (map fst (tree_set t k v))"
proof (induction t)
  case Nil
  then show ?case by simp
next
  case (Cons e t)
  obtain a w where e: "e = (a, w)" by (cases e)
  from Cons.prems have s: "sorted_wrt isLessThan (map fst t)"
    and lt: "\<forall>x \<in> set t. isLessThan a (fst x)" by (simp_all add: e)
  consider "isLessThan k a" | "k = a" | "isLessThan a k" using isLessThan_total by blast
  then show ?case
  proof cases
    case 1
    then have "\<forall>x \<in> set t. isLessThan k (fst x)" using lt isLessThan_trans by blast
    with 1 Cons.prems show ?thesis by (simp add: e compareTime_less_iff)
  next
    case 2
    with Cons.prems show ?thesis
      by (simp add: e compareTime_less_iff compareTime_zero_iff isLessThan_irrefl)
  next
    case 3
    then have nk: "\<not> isLessThan k a" "k \<noteq> a"
      using isLessThan_trans isLessThan_irrefl by blast+
    have "\<forall>x \<in> set (tree_set t k v). isLessThan a (fst x)"
    proof
      fix x assume "x \<in> set (tree_set t k v)"
      then have "fst x \<in> insert k (fst ` set t)" using tree_set_key_set [of t k v] by blast
      with 3 lt show "isLessThan a (fst x)" by auto
    qed
    with Cons.IH [OF s] nk show ?thesis
      by (simp add: e compareTime_less_iff compareTime_zero_iff)
  qed
qed

lemma tree_set_index_ok:
  "index_ok t \<Longrightarrow> distinct (js_map_keys (annotationsByNamespacedTopic v)) \<Longrightarrow> index_ok (tree_set t k v)"
proof -
  assume ok: "index_ok t" and d: "distinct (js_map_keys (annotationsByNamespacedTopic v))"
  have "distinct (js_map_keys (annotationsByNamespacedTopic (snd x)))" if "x \<in> set (tree_set t k v)" for x
  proof -
    from tree_set_mem [OF that] consider "x \<in> set t" | "snd x = v" by auto
    then show ?thesis using ok d by cases (simp_all add: index_ok_def list_all_iff)
  qed
  then show ?thesis using ok by (simp add: index_ok_def tree_set_sorted list_all_iff)
qed

lemma tree_get_index_ok:
  "index_ok t \<Longrightarrow> tree_get t k = Some v \<Longrightarrow> distinct (js_map_keys (annotationsByNamespacedTopic v))"
  using tree_get_mem [of t k v] by (auto simp: index_ok_def list_all_iff)

lemma store_image_index_ok: "index_ok t \<Longrightarrow> index_ok (store_image t m)"
  by (auto simp: store_image_def js_map_keys_def intro!: tree_set_index_ok dest: tree_get_index_ok
           split: option.splits)

lemma store_group_index_ok: "index_ok t \<Longrightarrow> index_ok (store_group nt ev t g)"
  by (auto simp: store_group_def Let_def js_map_keys_def js_map_set_distinct
           intro!: tree_set_index_ok dest: tree_get_index_ok split: option.splits)

lemma store_groups_index_ok: "index_ok t \<Longrightarrow> index_ok (foldl (store_group nt ev) t gs)"
  by (induction gs arbitrary: t) (simp_all add: store_group_index_ok)

lemma shift_older_index_ok: "index_ok t \<Longrightarrow> index_ok (shift_older t w)"
  by (induction t) (auto simp: index_ok_def)

lemma emitState_index_ok: "index_ok (tree this) \<Longrightarrow> index_ok (tree (emitState this))"
  using shift_older_index_ok
  by (auto simp: emitState_def getRenderState_def findSynchronizedSetAndRemoveOlderItems_def Let_def
           split: prod.splits option.splits if_splits)

lemma setConfig_resets_index_ok:
  "index_ok (tree this) \<Longrightarrow> index_ok (tree (fst (setConfig_resets this nc)))"
  by (auto simp: setConfig_resets_tree index_ok_def o_def list_all_iff js_map_keys_def keep_visible_def
                 distinct_map_filter
           split: option.splits)

text \<open>
  A new handler satisfies the invariant of the index and every operation preserves it, so
  the invariant holds in every state the handler reaches.
\<close>

lemma index_ok_preserved:
  "index_ok (tree (MessageHandler_new cfg))"
  "index_ok (tree this) \<Longrightarrow> index_ok (tree (handleImage this m))"
  "index_ok (tree this) \<Longrightarrow> index_ok (tree (handleCameraInfo this ci))"
  "index_ok (tree this) \<Longrightarrow> handleAnnotations normalizeAnnotations this ev = Some this' \<Longrightarrow>
     index_ok (tree this')"
  "index_ok (tree this) \<Longrightarrow> index_ok (tree (setConfig this nc))"
  "index_ok (tree (clear this))"
  "index_ok (tree this) \<Longrightarrow> index_ok (tree (snd (getRenderState this)))"
proof -
  have e: "index_ok []" by (simp add: index_ok_def)
  show "index_ok (tree (MessageHandler_new cfg))"
    by (simp add: MessageHandler_new_def e)
  show "index_ok (tree this) \<Longrightarrow> index_ok (tree (handleImage this m))"
    by (simp add: handleImage_def emitState_index_ok store_image_index_ok)
  show "index_ok (tree this) \<Longrightarrow> index_ok (tree (handleCameraInfo this ci))"
    by (simp add: handleCameraInfo_def emitState_index_ok)
  show "index_ok (tree this) \<Longrightarrow> handleAnnotations normalizeAnnotations this ev = Some this' \<Longrightarrow>
     index_ok (tree this')"
    by (auto simp: handleAnnotations_def Let_def emitState_index_ok store_groups_index_ok
             split: option.splits if_splits)
  show "index_ok (tree this) \<Longrightarrow> index_ok (tree (setConfig this nc))"
    using setConfig_resets_index_ok [of this nc]
    by (auto simp: setConfig_def Let_def emitState_index_ok split: prod.splits)
  show "index_ok (tree (clear this))"
    by (simp add: clear_def emitState_index_ok e)
  show "index_ok (tree this) \<Longrightarrow> index_ok (tree (snd (getRenderState this)))"
    using shift_older_index_ok
    by (auto simp: getRenderState_def findSynchronizedSetAndRemoveOlderItems_def Let_def
             split: prod.splits option.splits if_splits)
qed

subsection \<open>C7: the handler that setConfig returns\<close>



lemma emitState_old: "oldRenderState (emitState this) \<noteq> None"
  by (cases "getRenderState this") (simp add: emitState_def)




















end
